theory Spec2Isabelle
  imports Complex_Main "HOL-Library.AList"
begin

section \<open>Python values used by synthpops/base.py\<close>

text \<open>
  The exceptions the functions of \<^verbatim>\<open>base.py\<close> can raise.  Python raises
  \<^verbatim>\<open>ValueError\<close> for \<^verbatim>\<open>max([])\<close>, for numpy operands that cannot be broadcast
  together and for an array of a negative dimension; the three are kept apart here.  Numpy does not raise on a float
  division by zero: it stores \<^verbatim>\<open>inf\<close> or \<^verbatim>\<open>nan\<close> and warns.  Those are not real
  numbers, so a result holding such an entry is reported as \<open>NonFinite\<close>.  Storing
  a float that lies outside the 64-bit integers into an integer array raises nothing
  either and leaves a value that depends on the platform; a result holding such an entry
  is reported as \<open>InvalidCast\<close>.
  Numbers are exact: a Python float is a \<^typ>\<open>real\<close>, a Python int an \<^typ>\<open>int\<close>.
\<close>

datatype py_error =
    KeyError
  | IndexError
  | ValueError_max_empty
  | ValueError_broadcast
  | ValueError_negative_dimensions
  | NotImplementedError
  | NonFinite
  | InvalidCast

text \<open>
  A dictionary keeps its keys in insertion order: an association list whose keys are
  distinct.  \<^verbatim>\<open>d[k] = v\<close> overwrites the value of a present key in place and
  appends an absent one, which is \<^const>\<open>AList.update\<close>.
\<close>

type_synonym ('k, 'v) dict = "('k \<times> 'v) list"

definition dict_keys :: "('k, 'v) dict \<Rightarrow> 'k list" where
  "dict_keys d = map fst d"

definition dict_values :: "('k, 'v) dict \<Rightarrow> 'v list" where
  "dict_values d = map snd d"

definition getitem :: "('k, 'v) dict \<Rightarrow> 'k \<Rightarrow> py_error + 'v" where
  "getitem d k = (case map_of d k of None \<Rightarrow> Inl KeyError | Some v \<Rightarrow> Inr v)"

definition setitem :: "('k, 'v) dict \<Rightarrow> 'k \<Rightarrow> 'v \<Rightarrow> ('k, 'v) dict" where
  "setitem d k v = AList.update k v d"

definition dict_fromkeys :: "'k list \<Rightarrow> 'v \<Rightarrow> ('k, 'v) dict" where
  "dict_fromkeys ks v = fold (\<lambda>k d. setitem d k v) ks []"

text \<open>\<^verbatim>\<open>max(xs)\<close> of a list; the empty list raises.\<close>

fun py_max :: "int list \<Rightarrow> py_error + int" where
  "py_max [] = Inl ValueError_max_empty"
| "py_max (x # xs) = Inr (fold max xs x)"

text \<open>\<^verbatim>\<open>np.arange(n)\<close> for an integer \<open>n\<close>: the integers \<open>0, ..., n - 1\<close>, none when \<open>n \<le> 0\<close>.\<close>

definition arange :: "int \<Rightarrow> int list" where
  "arange n = [0..n - 1]"

section \<open>IdentityIndexer: get_ids_by_age_dictionary\<close>

text \<open>
  \<^verbatim>\<open>
  def get_ids_by_age_dictionary(age_by_id_dictionary):
      max_val = max([v for v in age_by_id_dictionary.values()])
      ids_by_age_dictionary = dict.fromkeys(np.arange(max_val+1))
      for i in ids_by_age_dictionary:
          ids_by_age_dictionary[i] = []
      for i in age_by_id_dictionary:
          ids_by_age_dictionary[age_by_id_dictionary[i]].append(i)
      return ids_by_age_dictionary
  \<close>
  \<^verbatim>\<open>dict.fromkeys(keys)\<close> fills the dictionary with the placeholder \<^verbatim>\<open>None\<close>
  (here the unit value); the first loop replaces the value of every key by a fresh
  empty list, keeping the keys and their order.  The second loop runs over the entries
  of the input in insertion order; looking up an age that is not a key raises
  \<^verbatim>\<open>KeyError\<close>.
\<close>

fun append_ids :: "('i, int) dict \<Rightarrow> (int, 'i list) dict \<Rightarrow> py_error + (int, 'i list) dict" where
  "append_ids [] ids = Inr ids"
| "append_ids ((i, age) # rest) ids =
     (case getitem ids age of
        Inl e \<Rightarrow> Inl e
      | Inr l \<Rightarrow> append_ids rest (setitem ids age (l @ [i])))"

definition get_ids_by_age_dictionary :: "('i, int) dict \<Rightarrow> py_error + (int, 'i list) dict" where
  "get_ids_by_age_dictionary age_by_id_dictionary =
     (case py_max (dict_values age_by_id_dictionary) of
        Inl e \<Rightarrow> Inl e
      | Inr max_val \<Rightarrow>
          (let placeholders = dict_fromkeys (arange (max_val + 1)) ();
               ids_by_age_dictionary = map (\<lambda>(i, _). (i, [])) placeholders
           in append_ids age_by_id_dictionary ids_by_age_dictionary))"

text \<open>The ids of age \<open>a\<close>, in the iteration order of the input mapping.\<close>

definition ids_of_age :: "('i, int) dict \<Rightarrow> int \<Rightarrow> 'i list" where
  "ids_of_age d a = map fst (filter (\<lambda>(i, a'). a' = a) d)"

section \<open>DictionaryNormalizer: normalize_dictionary\<close>

text \<open>
  \<^verbatim>\<open>
  def normalize_dictionary(d):
      total = np.sum([d[i] for i in d], dtype=float)
      if total == 0.0:
          return d
      new_dictonary = {}
      for i in d:
          new_dictonary[i] = float(d[i])/total
      return new_dictonary
  \<close>
  Both loops run over the entries of \<open>d\<close> in insertion order (\<^verbatim>\<open>d[i]\<close> for a key
  \<open>i\<close> of \<open>d\<close> cannot miss).  The division is only reached with a non-zero total.
\<close>

definition normalize_dictionary :: "('k, real) dict \<Rightarrow> ('k, real) dict" where
  "normalize_dictionary d =
     (let total = sum_list (dict_values d)
      in if total = 0 then d
         else fold (\<lambda>(i, v) new_dictonary. setitem new_dictonary i (v / total)) d [])"

section \<open>AgeAggregator: get_aggregate_ages\<close>

text \<open>
  \<^verbatim>\<open>set(xs)\<close> keeps one copy of every element.  Python does not fix the order in
  which a set is iterated; the model keeps the order of the last occurrences
  (\<^const>\<open>remdups\<close>), and no property below depends on that order.
\<close>

definition py_set :: "'a list \<Rightarrow> 'a list" where
  "py_set xs = remdups xs"

text \<open>
  \<^verbatim>\<open>
  def get_aggregate_ages(ages, age_by_brackets_dictionary):
      bracket_keys = set(age_by_brackets_dictionary.values())
      aggregate_ages = dict.fromkeys(bracket_keys, 0)
      for a in ages:
          b = age_by_brackets_dictionary[a]
          aggregate_ages[b] += ages[a]
      return aggregate_ages
  \<close>
  \<^verbatim>\<open>age_by_brackets_dictionary[a]\<close> raises \<^verbatim>\<open>KeyError\<close> for an age without a
  bracket; \<^verbatim>\<open>aggregate_ages[b] += x\<close> reads the entry of \<open>b\<close> and stores the sum.
\<close>

fun aggregate_ages_loop ::
  "('a, real) dict \<Rightarrow> ('a, 'b) dict \<Rightarrow> ('b, real) dict \<Rightarrow> py_error + ('b, real) dict" where
  "aggregate_ages_loop [] age_by_brackets_dictionary aggregate_ages = Inr aggregate_ages"
| "aggregate_ages_loop ((a, n) # rest) age_by_brackets_dictionary aggregate_ages =
     (case getitem age_by_brackets_dictionary a of
        Inl e \<Rightarrow> Inl e
      | Inr b \<Rightarrow>
          (case getitem aggregate_ages b of
             Inl e \<Rightarrow> Inl e
           | Inr cur \<Rightarrow>
               aggregate_ages_loop rest age_by_brackets_dictionary
                 (setitem aggregate_ages b (cur + n))))"

definition get_aggregate_ages ::
  "('a, real) dict \<Rightarrow> ('a, 'b) dict \<Rightarrow> py_error + ('b, real) dict" where
  "get_aggregate_ages ages age_by_brackets_dictionary =
     (let bracket_keys = py_set (dict_values age_by_brackets_dictionary);
          aggregate_ages = dict_fromkeys bracket_keys 0
      in aggregate_ages_loop ages age_by_brackets_dictionary aggregate_ages)"

text \<open>The count of the ages of \<open>ages\<close> that fall in bracket \<open>b\<close>.\<close>

definition bracket_count :: "('a, real) dict \<Rightarrow> ('a, 'b) dict \<Rightarrow> 'b \<Rightarrow> real" where
  "bracket_count ages age_by_brackets_dictionary b =
     sum_list (map snd (filter (\<lambda>(a, n). map_of age_by_brackets_dictionary a = Some b) ages))"

section \<open>AgeAggregator: get_aggregate_age_dictionary_conversion\<close>

text \<open>
  \<^verbatim>\<open>
  def get_aggregate_age_dictionary_conversion(larger_aggregate_ages, larger_age_brackets,
          smaller_age_brackets, age_by_brackets_dictionary_larger,
          age_by_brackets_dictionary_smaller):
      if len(larger_age_brackets) < len(smaller_age_brackets):
          raise NotImplementedError('Cannot reduce aggregate ages any further.')
      smaller_aggregate_ages = dict.fromkeys(smaller_age_brackets.keys(), 0)
      for lb in larger_age_brackets:
          a = larger_age_brackets[lb][0]
          sb = age_by_brackets_dictionary_smaller[a]
          smaller_aggregate_ages[sb] += larger_aggregate_ages[lb]
      return smaller_aggregate_ages
  \<close>
  A bracket is the list of its ages; \<^verbatim>\<open>xs[0]\<close> raises \<^verbatim>\<open>IndexError\<close> on an empty
  bracket.  The augmented assignment reads \<^verbatim>\<open>smaller_aggregate_ages[sb]\<close> before it
  evaluates \<^verbatim>\<open>larger_aggregate_ages[lb]\<close>.
\<close>

definition py_first :: "'a list \<Rightarrow> py_error + 'a" where
  "py_first xs = (case xs of [] \<Rightarrow> Inl IndexError | x # _ \<Rightarrow> Inr x)"

fun conversion_loop ::
  "('lb, 'a list) dict \<Rightarrow> ('lb, real) dict \<Rightarrow> ('a, 'sb) dict \<Rightarrow> ('sb, real) dict
     \<Rightarrow> py_error + ('sb, real) dict" where
  "conversion_loop [] larger_aggregate_ages age_by_brackets_dictionary_smaller
     smaller_aggregate_ages = Inr smaller_aggregate_ages"
| "conversion_loop ((lb, bracket) # rest) larger_aggregate_ages
     age_by_brackets_dictionary_smaller smaller_aggregate_ages =
     (case py_first bracket of
        Inl e \<Rightarrow> Inl e
      | Inr a \<Rightarrow>
          (case getitem age_by_brackets_dictionary_smaller a of
             Inl e \<Rightarrow> Inl e
           | Inr sb \<Rightarrow>
               (case getitem smaller_aggregate_ages sb of
                  Inl e \<Rightarrow> Inl e
                | Inr cur \<Rightarrow>
                    (case getitem larger_aggregate_ages lb of
                       Inl e \<Rightarrow> Inl e
                     | Inr v \<Rightarrow>
                         conversion_loop rest larger_aggregate_ages
                           age_by_brackets_dictionary_smaller
                           (setitem smaller_aggregate_ages sb (cur + v))))))"

definition get_aggregate_age_dictionary_conversion ::
  "('lb, real) dict \<Rightarrow> ('lb, 'a list) dict \<Rightarrow> ('sb, 'a list) dict \<Rightarrow> ('a, 'lb) dict
     \<Rightarrow> ('a, 'sb) dict \<Rightarrow> py_error + ('sb, real) dict" where
  "get_aggregate_age_dictionary_conversion larger_aggregate_ages larger_age_brackets
     smaller_age_brackets age_by_brackets_dictionary_larger
     age_by_brackets_dictionary_smaller =
     (if length larger_age_brackets < length smaller_age_brackets
      then Inl NotImplementedError
      else
        (let smaller_aggregate_ages = dict_fromkeys (dict_keys smaller_age_brackets) 0
         in conversion_loop larger_age_brackets larger_aggregate_ages
              age_by_brackets_dictionary_smaller smaller_aggregate_ages))"

text \<open>
  The specification's words: each larger bracket's entire value goes to the smaller
  bracket that contains the larger bracket's first age.  \<open>attributed \<dots> sb\<close> is the
  sum of the values of the larger brackets whose first age lies in \<open>sb\<close>.
\<close>

definition first_age_in :: "('a, 'sb) dict \<Rightarrow> 'sb \<Rightarrow> 'a list \<Rightarrow> bool" where
  "first_age_in age_by_brackets_dictionary_smaller sb bracket =
     (case bracket of [] \<Rightarrow> False
      | a # _ \<Rightarrow> map_of age_by_brackets_dictionary_smaller a = Some sb)"

definition attributed ::
  "('lb, real) dict \<Rightarrow> ('lb, 'a list) dict \<Rightarrow> ('a, 'sb) dict \<Rightarrow> 'sb \<Rightarrow> real" where
  "attributed larger_aggregate_ages larger_age_brackets age_by_brackets_dictionary_smaller sb =
     sum_list (map (\<lambda>(lb, bracket). case map_of larger_aggregate_ages lb of
                                        None \<Rightarrow> 0 | Some v \<Rightarrow> v)
       (filter (\<lambda>(lb, bracket). first_age_in age_by_brackets_dictionary_smaller sb bracket)
          larger_age_brackets))"

text \<open>
  The lookups of the loop are defined: no larger bracket is empty, the first age of each
  has a smaller bracket that is a key of \<open>smaller_age_brackets\<close>, and each larger
  bracket has a value.
\<close>

definition conversion_defined ::
  "('lb, real) dict \<Rightarrow> ('lb, 'a list) dict \<Rightarrow> ('sb, 'a list) dict \<Rightarrow> ('a, 'sb) dict \<Rightarrow> bool" where
  "conversion_defined larger_aggregate_ages larger_age_brackets smaller_age_brackets
     age_by_brackets_dictionary_smaller =
     list_all (\<lambda>(lb, bracket).
         list_ex (\<lambda>sb. first_age_in age_by_brackets_dictionary_smaller sb bracket)
           (dict_keys smaller_age_brackets) \<and>
         lb \<in> set (dict_keys larger_aggregate_ages))
       larger_age_brackets"

section \<open>Numpy arrays\<close>

text \<open>
  A two-dimensional float array is the list of its rows, all of one length.  (The list
  of rows does not record the number of columns of an array without rows; such an
  array has the shape \<open>(0, 0)\<close> here.)  An integer index \<open>i\<close> into an axis of length
  \<open>n\<close> counts from the end when it is negative and raises \<^verbatim>\<open>IndexError\<close> outside
  \<open>-n, ..., n - 1\<close>.
\<close>

type_synonym matrix = "real list list"

definition np_zeros :: "nat \<Rightarrow> nat \<Rightarrow> matrix" where
  "np_zeros r c = replicate r (replicate c 0)"

definition np_ones :: "nat \<Rightarrow> nat \<Rightarrow> matrix" where
  "np_ones r c = replicate r (replicate c 1)"

definition np_shape :: "matrix \<Rightarrow> nat \<times> nat" where
  "np_shape X = (length X, case X of [] \<Rightarrow> 0 | row # _ \<Rightarrow> length row)"

definition is_matrix :: "nat \<Rightarrow> nat \<Rightarrow> matrix \<Rightarrow> bool" where
  "is_matrix r c X = (length X = r \<and> list_all (\<lambda>row. length row = c) X)"

definition np_index :: "nat \<Rightarrow> int \<Rightarrow> py_error + nat" where
  "np_index n i =
     (if 0 \<le> i \<and> i < int n then Inr (nat i)
      else if - int n \<le> i \<and> i < 0 then Inr (nat (int n + i))
      else Inl IndexError)"

definition np_getitem :: "'a list \<Rightarrow> int \<Rightarrow> py_error + 'a" where
  "np_getitem xs i = (case np_index (length xs) i of Inl e \<Rightarrow> Inl e | Inr k \<Rightarrow> Inr (xs ! k))"

text \<open>The sum of all cells, \<^verbatim>\<open>M.sum()\<close>.\<close>

definition matrix_sum :: "matrix \<Rightarrow> real" where
  "matrix_sum M = sum_list (map sum_list M)"

text \<open>
  \<^verbatim>\<open>M / d\<close> for a float scalar \<open>d\<close>.  Dividing by zero raises nothing: every cell
  becomes \<^verbatim>\<open>inf\<close> or \<^verbatim>\<open>nan\<close>, so an array that has a cell is no longer an array of
  reals.
\<close>

definition np_divide :: "matrix \<Rightarrow> real \<Rightarrow> py_error + matrix" where
  "np_divide M d =
     (if d = 0 \<and> concat M \<noteq> [] then Inl NonFinite else Inr (map (map (\<lambda>x. x / d)) M))"

section \<open>MatrixAggregator: get_aggregate_matrix\<close>

text \<open>
  \<^verbatim>\<open>
  def get_aggregate_matrix(M, age_by_brackets_dictionary):
      N = len(M)
      num_agebrackets = len(set(age_by_brackets_dictionary.values()))
      M_agg = np.zeros((num_agebrackets, num_agebrackets))
      for i in range(N):
          bi = age_by_brackets_dictionary[i]
          for j in range(N):
              bj = age_by_brackets_dictionary[j]
              M_agg[bi][bj] += M[i][j]
      return M_agg
  \<close>
  The augmented assignment selects row \<open>bi\<close> of \<open>M_agg\<close>, reads its cell \<open>bj\<close>, then
  evaluates \<^verbatim>\<open>M[i][j]\<close> and stores the sum; each of the four subscripts can raise
  \<^verbatim>\<open>IndexError\<close>.
\<close>

fun aggregate_row ::
  "matrix \<Rightarrow> (int, int) dict \<Rightarrow> nat \<Rightarrow> int \<Rightarrow> nat list \<Rightarrow> matrix \<Rightarrow> py_error + matrix" where
  "aggregate_row M age_by_brackets_dictionary i bi [] M_agg = Inr M_agg"
| "aggregate_row M age_by_brackets_dictionary i bi (j # js) M_agg =
     (case getitem age_by_brackets_dictionary (int j) of
        Inl e \<Rightarrow> Inl e
      | Inr bj \<Rightarrow>
          (case np_index (length M_agg) bi of
             Inl e \<Rightarrow> Inl e
           | Inr r \<Rightarrow>
               (case np_index (length (M_agg ! r)) bj of
                  Inl e \<Rightarrow> Inl e
                | Inr c \<Rightarrow>
                    (case np_getitem M (int i) of
                       Inl e \<Rightarrow> Inl e
                     | Inr row \<Rightarrow>
                         (case np_getitem row (int j) of
                            Inl e \<Rightarrow> Inl e
                          | Inr x \<Rightarrow>
                              aggregate_row M age_by_brackets_dictionary i bi js
                                (M_agg[r := (M_agg ! r)[c := M_agg ! r ! c + x]]))))))"

fun aggregate_rows ::
  "matrix \<Rightarrow> (int, int) dict \<Rightarrow> nat list \<Rightarrow> nat list \<Rightarrow> matrix \<Rightarrow> py_error + matrix" where
  "aggregate_rows M age_by_brackets_dictionary [] cols M_agg = Inr M_agg"
| "aggregate_rows M age_by_brackets_dictionary (i # is) cols M_agg =
     (case getitem age_by_brackets_dictionary (int i) of
        Inl e \<Rightarrow> Inl e
      | Inr bi \<Rightarrow>
          (case aggregate_row M age_by_brackets_dictionary i bi cols M_agg of
             Inl e \<Rightarrow> Inl e
           | Inr M_agg' \<Rightarrow> aggregate_rows M age_by_brackets_dictionary is cols M_agg'))"

definition get_aggregate_matrix :: "matrix \<Rightarrow> (int, int) dict \<Rightarrow> py_error + matrix" where
  "get_aggregate_matrix M age_by_brackets_dictionary =
     (let N = length M;
          num_agebrackets = length (py_set (dict_values age_by_brackets_dictionary));
          M_agg = np_zeros num_agebrackets num_agebrackets
      in aggregate_rows M age_by_brackets_dictionary [0..<N] [0..<N] M_agg)"

section \<open>MatrixConverter: get_symmetric_community_matrix\<close>

text \<open>
  \<^verbatim>\<open>
  def get_symmetric_community_matrix(ages):
      N = len(ages)
      M = np.ones((N, N))
      for a in range(N):
          M[a, :] = M[a, :] * ages[a]
          M[:, a] = M[:, a] * ages[a]
      for a in range(N):
          M[a, a] -= ages[a]
      M = M/(np.sum([ages[a] for a in ages], dtype=float) - 1)
      return M
  \<close>
  The loop variable \<open>a\<close> is below \<open>N\<close>, so it is a valid row and column of the
  \<open>N \<times> N\<close> array; \<^verbatim>\<open>ages[a]\<close> raises \<^verbatim>\<open>KeyError\<close> when \<open>a\<close> is not a key.
\<close>

definition scale_row :: "nat \<Rightarrow> real \<Rightarrow> matrix \<Rightarrow> matrix" where
  "scale_row a v M = M[a := map (\<lambda>x. x * v) (M ! a)]"

definition scale_column :: "nat \<Rightarrow> real \<Rightarrow> matrix \<Rightarrow> matrix" where
  "scale_column a v M = map (\<lambda>row. row[a := row ! a * v]) M"

fun community_scale :: "(int, real) dict \<Rightarrow> nat list \<Rightarrow> matrix \<Rightarrow> py_error + matrix" where
  "community_scale ages [] M = Inr M"
| "community_scale ages (a # as) M =
     (case getitem ages (int a) of
        Inl e \<Rightarrow> Inl e
      | Inr v \<Rightarrow>
          (case getitem ages (int a) of
             Inl e \<Rightarrow> Inl e
           | Inr w \<Rightarrow> community_scale ages as (scale_column a w (scale_row a v M))))"

fun community_diagonal :: "(int, real) dict \<Rightarrow> nat list \<Rightarrow> matrix \<Rightarrow> py_error + matrix" where
  "community_diagonal ages [] M = Inr M"
| "community_diagonal ages (a # as) M =
     (case getitem ages (int a) of
        Inl e \<Rightarrow> Inl e
      | Inr v \<Rightarrow> community_diagonal ages as (M[a := (M ! a)[a := M ! a ! a - v]]))"

definition get_symmetric_community_matrix :: "(int, real) dict \<Rightarrow> py_error + matrix" where
  "get_symmetric_community_matrix ages =
     (let N = length ages;
          M = np_ones N N
      in case community_scale ages [0..<N] M of
           Inl e \<Rightarrow> Inl e
         | Inr M1 \<Rightarrow>
             (case community_diagonal ages [0..<N] M1 of
                Inl e \<Rightarrow> Inl e
              | Inr M2 \<Rightarrow> np_divide M2 (sum_list (dict_values ages) - 1)))"

section \<open>MatrixConverter: get_asymmetric_matrix\<close>












section \<open>MatrixCombiner: combine_matrices\<close>

text \<open>
  \<^verbatim>\<open>
  def combine_matrices(matrix_dictionary, weights_dictionary, num_agebrackets):
      M = np.zeros((num_agebrackets, num_agebrackets))
      for setting_code in weights_dictionary:
          M += matrix_dictionary[setting_code] * weights_dictionary[setting_code]
      return M
  \<close>
  The function itself tests no shape.  \<^verbatim>\<open>X * w\<close> keeps the shape of \<open>X\<close>, and the
  in-place addition \<^verbatim>\<open>M += Y\<close> follows numpy's broadcasting: along each axis \<open>Y\<close>
  must have the length of \<open>M\<close> or the length 1, and an axis of length 1 is repeated;
  otherwise numpy raises \<^verbatim>\<open>ValueError\<close>.  The result has the shape of \<open>M\<close>.
\<close>

definition np_scale :: "matrix \<Rightarrow> real \<Rightarrow> matrix" where
  "np_scale X w = map (map (\<lambda>x. x * w)) X"

definition broadcastable :: "nat \<times> nat \<Rightarrow> nat \<times> nat \<Rightarrow> bool" where
  "broadcastable shape_Y shape_M =
     ((fst shape_Y = fst shape_M \<or> fst shape_Y = 1) \<and>
      (snd shape_Y = snd shape_M \<or> snd shape_Y = 1))"

definition broadcast_cell :: "matrix \<Rightarrow> nat \<Rightarrow> nat \<Rightarrow> real" where
  "broadcast_cell Y i j =
     Y ! (if fst (np_shape Y) = 1 then 0 else i) ! (if snd (np_shape Y) = 1 then 0 else j)"

definition np_iadd :: "matrix \<Rightarrow> matrix \<Rightarrow> py_error + matrix" where
  "np_iadd M Y =
     (if broadcastable (np_shape Y) (np_shape M)
      then Inr (map (\<lambda>i. map (\<lambda>j. M ! i ! j + broadcast_cell Y i j) [0..<snd (np_shape M)])
                  [0..<fst (np_shape M)])
      else Inl ValueError_broadcast)"

fun combine_loop :: "('s, real) dict \<Rightarrow> ('s, matrix) dict \<Rightarrow> matrix \<Rightarrow> py_error + matrix" where
  "combine_loop [] matrix_dictionary M = Inr M"
| "combine_loop ((setting_code, w) # rest) matrix_dictionary M =
     (case getitem matrix_dictionary setting_code of
        Inl e \<Rightarrow> Inl e
      | Inr X \<Rightarrow>
          (case np_iadd M (np_scale X w) of
             Inl e \<Rightarrow> Inl e
           | Inr M' \<Rightarrow> combine_loop rest matrix_dictionary M'))"

definition combine_matrices ::
  "('s, matrix) dict \<Rightarrow> ('s, real) dict \<Rightarrow> int \<Rightarrow> py_error + matrix" where
  "combine_matrices matrix_dictionary weights_dictionary num_agebrackets =
     (if num_agebrackets < 0 then Inl ValueError_negative_dimensions
      else combine_loop weights_dictionary matrix_dictionary
             (np_zeros (nat num_agebrackets) (nat num_agebrackets)))"

text \<open>
  The specification's words: the sum over the settings of the weight dictionary of
  weight times matrix, here for the cell \<open>(i, j)\<close>.
\<close>

definition weighted_cell ::
  "('s, matrix) dict \<Rightarrow> ('s, real) dict \<Rightarrow> nat \<Rightarrow> nat \<Rightarrow> real" where
  "weighted_cell matrix_dictionary weights_dictionary i j =
     sum_list (map (\<lambda>(setting_code, w).
                  case map_of matrix_dictionary setting_code of
                    None \<Rightarrow> 0
                  | Some X \<Rightarrow> w * X ! i ! j)
       weights_dictionary)"

text \<open>Every setting with a weight has a matrix, of the shape \<open>n \<times> n\<close>.\<close>

definition weighted_settings_square ::
  "('s, matrix) dict \<Rightarrow> ('s, real) dict \<Rightarrow> nat \<Rightarrow> bool" where
  "weighted_settings_square matrix_dictionary weights_dictionary n =
     list_all (\<lambda>(setting_code, w).
         case map_of matrix_dictionary setting_code of
           None \<Rightarrow> False
         | Some X \<Rightarrow> is_matrix n n X)
       weights_dictionary"

text \<open>
  Some setting with a weight has a matrix whose shape cannot be broadcast to
  \<open>n \<times> n\<close>; every setting with a weight has a matrix.
\<close>

definition shape_mismatch :: "('s, matrix) dict \<Rightarrow> ('s, real) dict \<Rightarrow> nat \<Rightarrow> bool" where
  "shape_mismatch matrix_dictionary weights_dictionary n =
     list_ex (\<lambda>(setting_code, w).
         case map_of matrix_dictionary setting_code of
           None \<Rightarrow> False
         | Some X \<Rightarrow> \<not> broadcastable (np_shape X) (n, n))
       weights_dictionary"

definition all_present :: "('s, matrix) dict \<Rightarrow> ('s, real) dict \<Rightarrow> bool" where
  "all_present matrix_dictionary weights_dictionary =
     list_all (\<lambda>(setting_code, w). map_of matrix_dictionary setting_code \<noteq> None)
       weights_dictionary"

section \<open>Properties\<close>

subsection \<open>Dictionaries\<close>

lemma setitem_fresh: "k \<notin> fst ` set d \<Longrightarrow> setitem d k v = d @ [(k, v)]"
  by (induction d) (auto simp: setitem_def)

lemma dict_fromkeys_distinct_aux:
  "distinct ks \<Longrightarrow> set ks \<inter> fst ` set acc = {} \<Longrightarrow>
   fold (\<lambda>k d. setitem d k v) ks acc = acc @ map (\<lambda>k. (k, v)) ks"
proof (induction ks arbitrary: acc)
  case Nil
  then show ?case by simp
next
  case (Cons k ks)
  have fresh: "k \<notin> fst ` set acc" using Cons.prems by auto
  have "set ks \<inter> fst ` set (acc @ [(k, v)]) = {}" using Cons.prems by auto
  with Cons fresh show ?case by (simp add: setitem_fresh)
qed

lemma dict_fromkeys_distinct: "distinct ks \<Longrightarrow> dict_fromkeys ks v = map (\<lambda>k. (k, v)) ks"
  using dict_fromkeys_distinct_aux [of ks "[]" v] by (simp add: dict_fromkeys_def)

lemma py_max_Max: "xs \<noteq> [] \<Longrightarrow> py_max xs = Inr (Max (set xs))"
proof (cases xs)
  case Nil
  then show "xs \<noteq> [] \<Longrightarrow> ?thesis" by simp
next
  case (Cons x ys)
  then show ?thesis using Max.set_eq_fold [of x ys] by simp
qed

lemma setitem_modify:
  "distinct (map fst d) \<Longrightarrow> map_of d k = Some v \<Longrightarrow>
   setitem d k (f v) = map (\<lambda>(k', v'). (k', if k' = k then f v' else v')) d"
proof (induction d)
  case Nil
  then show ?case by simp
next
  case (Cons p d)
  obtain a w where p: "p = (a, w)" by (cases p)
  show ?case
  proof (cases "a = k")
    case True
    with Cons.prems p have "w = v" and "k \<notin> fst ` set d" by auto
    then have "map (\<lambda>(k', v'). (k', if k' = k then f v' else v')) d = d"
      by (induction d) auto
    with True p \<open>w = v\<close> show ?thesis by (simp add: setitem_def)
  next
    case False
    with Cons p show ?thesis by (simp add: setitem_def)
  qed
qed

lemma modify_keys: "map fst (map (\<lambda>(k', v'). (k', g k' v')) d) = map fst d"
  by (induction d) auto

subsection \<open>get_ids_by_age_dictionary\<close>

lemma append_ids_result:
  "distinct (map fst ids) \<Longrightarrow> snd ` set rest \<subseteq> fst ` set ids \<Longrightarrow>
   append_ids rest ids = Inr (map (\<lambda>(a, l). (a, l @ ids_of_age rest a)) ids)"
proof (induction rest arbitrary: ids)
  case Nil
  then show ?case by (simp add: ids_of_age_def)
next
  case (Cons p rest)
  obtain i age where p: "p = (i, age)" by (cases p)
  from Cons.prems p have "age \<in> fst ` set ids" by auto
  then obtain l where l: "map_of ids age = Some l"
    by (metis domD dom_map_of_conv_image_fst)
  let ?ids' = "map (\<lambda>(a, l'). (a, if a = age then l' @ [i] else l')) ids"
  have upd: "setitem ids age (l @ [i]) = ?ids'"
    using Cons.prems(1) l by (rule setitem_modify)
  have keys: "map fst ?ids' = map fst ids" by (rule modify_keys)
  have "append_ids rest ?ids' = Inr (map (\<lambda>(a, l). (a, l @ ids_of_age rest a)) ?ids')"
  proof (rule Cons.IH)
    show "distinct (map fst ?ids')" using Cons.prems(1) by (simp only: keys)
    have "fst ` set ?ids' = fst ` set ids" using keys by (metis set_map)
    then show "snd ` set rest \<subseteq> fst ` set ?ids'" using Cons.prems(2) by auto
  qed
  moreover have "map (\<lambda>(a, l). (a, l @ ids_of_age rest a)) ?ids'
      = map (\<lambda>(a, l). (a, l @ ids_of_age (p # rest) a)) ids"
    by (induction ids) (auto simp: p ids_of_age_def)
  ultimately show ?case by (simp add: p getitem_def l upd)
qed

text \<open>
  C10.  On the empty mapping \<^verbatim>\<open>get_ids_by_age_dictionary\<close> raises: the maximum of
  the empty list of ages is a \<^verbatim>\<open>ValueError\<close>, and no (empty) index is returned.
\<close>

theorem ids_by_age_empty_raises:
  "get_ids_by_age_dictionary ([] :: ('i, int) dict) = Inl ValueError_max_empty"
  by (simp add: get_ids_by_age_dictionary_def dict_values_def)

text \<open>
  C9.  For a non-empty mapping from identifiers to non-negative ages,
  \<^verbatim>\<open>get_ids_by_age_dictionary\<close> returns a dictionary whose keys are exactly the ages
  \<open>0, ..., max\<close> (in this order), each mapped to the identifiers of that age in the
  iteration order of the input; an age without members is mapped to the empty list.
\<close>

theorem ids_by_age_index:
  assumes "d \<noteq> []" and "\<forall>a \<in> snd ` set d. 0 \<le> a"
  shows "get_ids_by_age_dictionary d =
         Inr (map (\<lambda>a. (a, ids_of_age d a)) [0..Max (snd ` set d)])"
proof -
  let ?m = "Max (snd ` set d)"
  have mx: "py_max (dict_values d) = Inr ?m"
    using assms(1) py_max_Max [of "dict_values d"] by (simp add: dict_values_def)
  have ar: "arange (?m + 1) = [0..?m]" by (simp add: arange_def)
  have ph: "dict_fromkeys [0..?m] () = map (\<lambda>k. (k, ())) [0..?m]"
    by (rule dict_fromkeys_distinct) simp
  let ?ids = "map (\<lambda>a. (a, [])) [0..?m]"
  have ids: "map (\<lambda>(i, _). (i, [])) (map (\<lambda>k. (k, ())) [0..?m]) = ?ids" by simp
  have keys: "map fst ?ids = [0..?m]" by (simp add: comp_def)
  have "append_ids d ?ids = Inr (map (\<lambda>(a, l). (a, l @ ids_of_age d a)) ?ids)"
  proof (rule append_ids_result)
    show "distinct (map fst ?ids)" by (simp only: keys distinct_upto)
    show "snd ` set d \<subseteq> fst ` set ?ids"
    proof
      fix a assume a: "a \<in> snd ` set d"
      then have "0 \<le> a" using assms(2) by blast
      moreover have "a \<le> ?m" using a by simp
      ultimately have "a \<in> set [0..?m]" by simp
      then show "a \<in> fst ` set ?ids" using keys by (metis set_map)
    qed
  qed
  then have "append_ids d ?ids = Inr (map (\<lambda>a. (a, ids_of_age d a)) [0..?m])"
    by (simp add: comp_def)
  then show ?thesis
    by (simp add: get_ids_by_age_dictionary_def mx ar ph ids del: map_map)
qed

text \<open>The example of the specification, \<^verbatim>\<open>ids_by_age({0:0, 1:0, 2:1}) = {0:[0,1], 1:[2]}\<close>.\<close>

theorem ids_by_age_index_witness:
  "[(0::nat, 0::int), (1, 0), (2, 1)] \<noteq> [] \<and>
   list_all (\<lambda>(i, a). 0 \<le> a) [(0::nat, 0::int), (1, 0), (2, 1)] \<and>
   get_ids_by_age_dictionary [(0::nat, 0::int), (1, 0), (2, 1)] = Inr [(0, [0, 1]), (1, [2])]"
  using ids_by_age_index [of "[(0::nat, 0::int), (1, 0), (2, 1)]"]
  by (simp add: ids_of_age_def upto_rec1)

subsection \<open>normalize_dictionary\<close>

lemma normalize_loop:
  "distinct (map fst d) \<Longrightarrow> fst ` set d \<inter> fst ` set acc = {} \<Longrightarrow>
   fold (\<lambda>(i, v) nd. setitem nd i (v / t)) d acc = acc @ map (\<lambda>(i, v). (i, v / t)) d"
proof (induction d arbitrary: acc)
  case Nil
  then show ?case by simp
next
  case (Cons p d)
  obtain i v where p: "p = (i, v)" by (cases p)
  have fresh: "i \<notin> fst ` set acc" using Cons.prems p by auto
  have "fst ` set d \<inter> fst ` set (acc @ [(i, v / t)]) = {}" using Cons.prems p by auto
  with Cons p fresh show ?case by (simp add: setitem_fresh)
qed

lemma normalize_dictionary_map:
  "distinct (map fst d) \<Longrightarrow> sum_list (dict_values d) \<noteq> 0 \<Longrightarrow>
   normalize_dictionary d = map (\<lambda>(i, v). (i, v / sum_list (dict_values d))) d"
  using normalize_loop [of d "[]"] by (simp add: normalize_dictionary_def)

lemma sum_list_divide: "sum_list (map (\<lambda>x. x / t) xs) = sum_list xs / (t::real)"
  by (induction xs) (simp_all add: add_divide_distrib)

lemma scaled_keys: "dict_keys (map (\<lambda>(i, v). (i, v / t)) d) = dict_keys d"
  unfolding dict_keys_def by (induction d) auto

lemma scaled_values:
  "dict_values (map (\<lambda>(i, v). (i, v / t)) d) = map (\<lambda>x. x / t) (dict_values d)"
  unfolding dict_values_def by (induction d) auto

lemma scaled_lookup:
  "map_of d k = Some v \<Longrightarrow> map_of (map (\<lambda>(i, v). (i, v / t)) d) k = Some (v / t)"
  by (induction d) (auto split: if_splits)

text \<open>
  C4.  \<^verbatim>\<open>normalize_dictionary\<close> returns its argument unchanged when the values sum
  to zero.  Otherwise it returns a dictionary with the same keys in the same order, each
  value divided by the total, and the values of the result sum to one (in exact
  arithmetic).
\<close>

theorem normalize_dictionary_law:
  assumes "distinct (dict_keys d)"
  shows "(sum_list (dict_values d) = 0 \<longrightarrow> normalize_dictionary d = d) \<and>
         (sum_list (dict_values d) \<noteq> 0 \<longrightarrow>
            dict_keys (normalize_dictionary d) = dict_keys d \<and>
            (\<forall>k v. map_of d k = Some v \<longrightarrow>
               map_of (normalize_dictionary d) k = Some (v / sum_list (dict_values d))) \<and>
            sum_list (dict_values (normalize_dictionary d)) = 1)"
proof (intro conjI impI allI)
  assume "sum_list (dict_values d) = 0"
  then show "normalize_dictionary d = d" by (simp add: normalize_dictionary_def)
next
  let ?t = "sum_list (dict_values d)"
  assume nz: "?t \<noteq> 0"
  have eq: "normalize_dictionary d = map (\<lambda>(i, v). (i, v / ?t)) d"
    using assms nz by (simp add: normalize_dictionary_map dict_keys_def)
  show "dict_keys (normalize_dictionary d) = dict_keys d"
    unfolding eq by (rule scaled_keys)
  show "sum_list (dict_values (normalize_dictionary d)) = 1"
    unfolding eq scaled_values sum_list_divide using nz by simp
  fix k v assume "map_of d k = Some v"
  then have "map_of (map (\<lambda>(i, v). (i, v / ?t)) d) k = Some (v / ?t)"
    by (rule scaled_lookup)
  then show "map_of (normalize_dictionary d) k = Some (v / ?t)" by (simp only: eq)
qed

text \<open>Two instances: \<^verbatim>\<open>{0: 1, 1: 3}\<close> with total 4, and \<^verbatim>\<open>{0: 2, 1: -2}\<close> with total 0.\<close>

theorem normalize_dictionary_law_witness:
  "distinct (dict_keys [(0::nat, 1::real), (1, 3)]) \<and>
   sum_list (dict_values [(0::nat, 1::real), (1, 3)]) = 4 \<and>
   normalize_dictionary [(0::nat, 1::real), (1, 3)] = [(0, 1/4), (1, 3/4)] \<and>
   sum_list (dict_values (normalize_dictionary [(0::nat, 1::real), (1, 3)])) = 1 \<and>
   distinct (dict_keys [(0::nat, 2::real), (1, -2)]) \<and>
   sum_list (dict_values [(0::nat, 2::real), (1, -2)]) = 0 \<and>
   normalize_dictionary [(0::nat, 2::real), (1, -2)] = [(0, 2), (1, -2)]"
  using normalize_dictionary_law [of "[(0::nat, 1::real), (1, 3)]"]
        normalize_dictionary_law [of "[(0::nat, 2::real), (1, -2)]"]
  by (simp add: dict_keys_def dict_values_def normalize_dictionary_def setitem_def)

subsection \<open>get_aggregate_ages\<close>

lemma aggregate_ages_loop_result:
  "distinct (map fst agg) \<Longrightarrow>
   \<forall>a \<in> fst ` set rest. \<exists>b. map_of abd a = Some b \<and> b \<in> fst ` set agg \<Longrightarrow>
   aggregate_ages_loop rest abd agg =
     Inr (map (\<lambda>(b, c). (b, c + bracket_count rest abd b)) agg)"
proof (induction rest arbitrary: agg)
  case Nil
  then show ?case by (simp add: bracket_count_def)
next
  case (Cons p rest)
  obtain a n where p: "p = (a, n)" by (cases p)
  from Cons.prems(2) p obtain b where b: "map_of abd a = Some b" "b \<in> fst ` set agg"
    by auto
  then obtain cur where cur: "map_of agg b = Some cur"
    by (metis domD dom_map_of_conv_image_fst)
  let ?agg' = "map (\<lambda>(b', c). (b', if b' = b then c + n else c)) agg"
  have upd: "setitem agg b (cur + n) = ?agg'"
    using setitem_modify [OF Cons.prems(1) cur, of "\<lambda>c. c + n"] .
  have keys: "map fst ?agg' = map fst agg" by (rule modify_keys)
  have "aggregate_ages_loop rest abd ?agg' =
          Inr (map (\<lambda>(b, c). (b, c + bracket_count rest abd b)) ?agg')"
  proof (rule Cons.IH)
    show "distinct (map fst ?agg')" using Cons.prems(1) by (simp only: keys)
    have "fst ` set ?agg' = fst ` set agg" using keys by (metis set_map)
    then show "\<forall>a \<in> fst ` set rest. \<exists>b. map_of abd a = Some b \<and> b \<in> fst ` set ?agg'"
      using Cons.prems(2) by auto
  qed
  moreover have "map (\<lambda>(b, c). (b, c + bracket_count rest abd b)) ?agg'
      = map (\<lambda>(b, c). (b, c + bracket_count (p # rest) abd b)) agg"
    by (induction agg) (auto simp: p b bracket_count_def)
  ultimately show ?case by (simp add: p getitem_def b cur upd)
qed

lemma bracket_count_total:
  "distinct bs \<Longrightarrow> \<forall>a \<in> fst ` set ages. \<exists>b \<in> set bs. map_of abd a = Some b \<Longrightarrow>
   sum_list (map (\<lambda>b. bracket_count ages abd b) bs) = sum_list (map snd ages)"
proof (induction ages)
  case Nil
  then show ?case by (simp add: bracket_count_def)
next
  case (Cons p ages)
  obtain a n where p: "p = (a, n)" by (cases p)
  from Cons.prems(2) p obtain b0 where b0: "b0 \<in> set bs" "map_of abd a = Some b0" by auto
  have split: "bracket_count (p # ages) abd b = (if b = b0 then n else 0) + bracket_count ages abd b"
    for b by (simp add: bracket_count_def p b0)
  have one: "sum_list (map (\<lambda>b. if b = b0 then n else 0) bs) = n"
    using Cons.prems(1) b0(1) by (simp add: sum_list_distinct_conv_sum_set)
  have ih: "sum_list (map (bracket_count ages abd) bs) = sum_list (map snd ages)"
    using Cons by auto
  have "map (bracket_count (p # ages) abd) bs
      = map (\<lambda>b. (if b = b0 then n else 0) + bracket_count ages abd b) bs"
    using split by simp
  then have "sum_list (map (bracket_count (p # ages) abd) bs)
      = sum_list (map (\<lambda>b. (if b = b0 then n else 0) + bracket_count ages abd b) bs)"
    by (rule arg_cong)
  also have "\<dots> = sum_list (map (\<lambda>b. if b = b0 then n else 0) bs)
      + sum_list (map (bracket_count ages abd) bs)"
    by (simp only: sum_list_addf)
  finally show ?case by (simp add: one ih p)
qed

text \<open>
  C3.  When every age of \<open>ages\<close> is a key of \<open>age_by_brackets_dictionary\<close>,
  \<^verbatim>\<open>get_aggregate_ages\<close> returns a dictionary with exactly one entry per bracket id
  occurring as a value of \<open>age_by_brackets_dictionary\<close>; the entry of a bracket is the
  sum of the counts of the input ages in that bracket, so a bracket matching no input
  age is mapped to 0, and the values of the result sum to the sum of the values of
  \<open>ages\<close>.
\<close>

theorem aggregate_ages_total:
  assumes "set (dict_keys ages) \<subseteq> set (dict_keys age_by_brackets_dictionary)"
  shows "\<exists>agg. get_aggregate_ages ages age_by_brackets_dictionary = Inr agg \<and>
           distinct (dict_keys agg) \<and>
           set (dict_keys agg) = set (dict_values age_by_brackets_dictionary) \<and>
           (\<forall>b \<in> set (dict_values age_by_brackets_dictionary).
              map_of agg b = Some (bracket_count ages age_by_brackets_dictionary b) \<and>
              ((\<forall>a \<in> set (dict_keys ages). map_of age_by_brackets_dictionary a \<noteq> Some b)
                 \<longrightarrow> map_of agg b = Some 0)) \<and>
           sum_list (dict_values agg) = sum_list (dict_values ages)"
proof -
  let ?abd = age_by_brackets_dictionary
  let ?bs = "py_set (dict_values ?abd)"
  let ?init = "map (\<lambda>b. (b, 0::real)) ?bs"
  let ?agg = "map (\<lambda>b. (b, bracket_count ages ?abd b)) ?bs"
  have dist: "distinct ?bs" and bs: "set ?bs = set (dict_values ?abd)"
    by (simp_all add: py_set_def)
  have init: "dict_fromkeys ?bs (0::real) = ?init"
    using dist by (rule dict_fromkeys_distinct)
  have keys0: "map fst ?init = ?bs" by (simp add: comp_def)
  have inbr: "\<exists>b. map_of ?abd a = Some b \<and> b \<in> set ?bs" if "a \<in> fst ` set ages" for a
  proof -
    from that assms have "a \<in> fst ` set ?abd" by (auto simp: dict_keys_def)
    then obtain b where b: "map_of ?abd a = Some b"
      by (metis domD dom_map_of_conv_image_fst)
    then have "(a, b) \<in> set ?abd" by (rule map_of_SomeD)
    then have "b \<in> set (dict_values ?abd)" by (force simp: dict_values_def)
    with b bs show ?thesis by simp
  qed
  have "aggregate_ages_loop ages ?abd ?init =
          Inr (map (\<lambda>(b, c). (b, c + bracket_count ages ?abd b)) ?init)"
  proof (rule aggregate_ages_loop_result)
    show "distinct (map fst ?init)" using dist by (simp only: keys0)
    show "\<forall>a \<in> fst ` set ages. \<exists>b. map_of ?abd a = Some b \<and> b \<in> fst ` set ?init"
      using inbr keys0 by (metis set_map)
  qed
  then have res: "get_aggregate_ages ages ?abd = Inr ?agg"
    by (simp add: get_aggregate_ages_def init comp_def)
  have keys: "dict_keys ?agg = ?bs" by (simp add: dict_keys_def comp_def)
  have vals: "dict_values ?agg = map (\<lambda>b. bracket_count ages ?abd b) ?bs"
    by (simp add: dict_values_def comp_def)
  have look: "map_of ?agg b = Some (bracket_count ages ?abd b)" if "b \<in> set ?bs" for b
    using that by (simp add: map_of_map_restrict)
  have zero: "bracket_count ages ?abd b = 0"
    if "\<forall>a \<in> set (dict_keys ages). map_of ?abd a \<noteq> Some b" for b
  proof -
    have "filter (\<lambda>(a, n). map_of ?abd a = Some b) ages = []"
      using that by (auto simp: filter_empty_conv dict_keys_def)
    then show ?thesis by (simp add: bracket_count_def)
  qed
  have total: "sum_list (dict_values ?agg) = sum_list (dict_values ages)"
    unfolding vals using bracket_count_total [OF dist, of ages ?abd] inbr
    by (simp add: dict_values_def) blast
  show ?thesis
  proof (intro exI conjI ballI impI)
    show "get_aggregate_ages ages ?abd = Inr ?agg" by (rule res)
    show "distinct (dict_keys ?agg)" using dist by (simp only: keys)
    show "set (dict_keys ?agg) = set (dict_values ?abd)" using bs by (simp only: keys)
    show "sum_list (dict_values ?agg) = sum_list (dict_values ages)" by (rule total)
  next
    fix b assume "b \<in> set (dict_values ?abd)"
    then show "map_of ?agg b = Some (bracket_count ages ?abd b)" using look bs by simp
  next
    fix b assume "b \<in> set (dict_values ?abd)"
      and "\<forall>a \<in> set (dict_keys ages). map_of ?abd a \<noteq> Some b"
    then show "map_of ?agg b = Some 0" using look bs zero by simp
  qed
qed

text \<open>
  The example of the specification, \<^verbatim>\<open>{0:10, 1:20, 2:30}\<close> with brackets
  \<^verbatim>\<open>{0:[0,1], 1:[2]}\<close>, extended by a third bracket that holds no input age.
\<close>

theorem aggregate_ages_total_witness:
  "set (dict_keys [(0::int, 10::real), (1, 20), (2, 30)])
     \<subseteq> set (dict_keys [(0::int, 0::int), (1, 0), (2, 1), (3, 2)]) \<and>
   get_aggregate_ages [(0::int, 10), (1, 20), (2, 30)] [(0::int, 0::int), (1, 0), (2, 1), (3, 2)]
     = Inr [(0, 30), (1, 30), (2, 0)] \<and>
   sum_list (dict_values [(0::int, 30::real), (1, 30), (2, 0)])
     = sum_list (dict_values [(0::int, 10::real), (1, 20), (2, 30)])"
  using aggregate_ages_total [of "[(0::int, 10::real), (1, 20), (2, 30)]"
      "[(0::int, 0::int), (1, 0), (2, 1), (3, 2)]"]
  by (simp add: dict_keys_def dict_values_def get_aggregate_ages_def py_set_def
      dict_fromkeys_def setitem_def getitem_def)

subsection \<open>get_aggregate_age_dictionary_conversion\<close>

lemma conversion_loop_errors:
  "conversion_loop rest lagg abds sagg = Inl e \<Longrightarrow> e = KeyError \<or> e = IndexError"
proof (induction rest arbitrary: sagg)
  case Nil
  then show ?case by simp
next
  case (Cons p rest)
  obtain lb bracket where p: "p = (lb, bracket)" by (cases p)
  from Cons.prems show ?case
    unfolding p
    by (auto simp: py_first_def getitem_def split: list.splits option.splits dest: Cons.IH)
qed

lemma conversion_loop_result:
  "conversion_loop rest lagg abds sagg = Inr res \<Longrightarrow> distinct (map fst sagg) \<Longrightarrow>
   res = map (\<lambda>(sb, c). (sb, c + attributed lagg rest abds sb)) sagg"
proof (induction rest arbitrary: sagg)
  case Nil
  then show ?case by (simp add: attributed_def)
next
  case (Cons p rest)
  obtain lb bracket where p: "p = (lb, bracket)" by (cases p)
  from Cons.prems(1) obtain a tl' sb cur v where
    br: "bracket = a # tl'" and sb: "map_of abds a = Some sb"
    and cur: "map_of sagg sb = Some cur" and v: "map_of lagg lb = Some v"
    and run: "conversion_loop rest lagg abds (setitem sagg sb (cur + v)) = Inr res"
    unfolding p
    by (auto simp: py_first_def getitem_def split: list.splits option.splits)
  let ?sagg' = "map (\<lambda>(b', c). (b', if b' = sb then c + v else c)) sagg"
  have upd: "setitem sagg sb (cur + v) = ?sagg'"
    using setitem_modify [OF Cons.prems(2) cur, of "\<lambda>c. c + v"] .
  have keys: "map fst ?sagg' = map fst sagg" by (rule modify_keys)
  have "res = map (\<lambda>(sb, c). (sb, c + attributed lagg rest abds sb)) ?sagg'"
  proof (rule Cons.IH)
    show "conversion_loop rest lagg abds ?sagg' = Inr res" using run by (simp only: upd)
    show "distinct (map fst ?sagg')" using Cons.prems(2) by (simp only: keys)
  qed
  moreover have "map (\<lambda>(sb, c). (sb, c + attributed lagg rest abds sb)) ?sagg'
      = map (\<lambda>(sb, c). (sb, c + attributed lagg (p # rest) abds sb)) sagg"
    by (induction sagg) (auto simp: p br sb v attributed_def first_age_in_def)
  ultimately show ?case by simp
qed

lemma conversion_loop_defined:
  "distinct (map fst sagg) \<Longrightarrow>
   list_all (\<lambda>(lb, bracket).
       list_ex (\<lambda>sb. first_age_in abds sb bracket) (map fst sagg) \<and>
       lb \<in> fst ` set lagg) rest \<Longrightarrow>
   \<exists>res. conversion_loop rest lagg abds sagg = Inr res"
proof (induction rest arbitrary: sagg)
  case Nil
  then show ?case by simp
next
  case (Cons p rest)
  obtain lb bracket where p: "p = (lb, bracket)" by (cases p)
  from Cons.prems(2) p obtain sb where sb: "sb \<in> fst ` set sagg" "first_age_in abds sb bracket"
    by (auto simp: list_ex_iff)
  then obtain a tl' where br: "bracket = a # tl'" and look: "map_of abds a = Some sb"
    by (auto simp: first_age_in_def split: list.splits)
  from sb(1) obtain cur where cur: "map_of sagg sb = Some cur"
    by (metis domD dom_map_of_conv_image_fst)
  from Cons.prems(2) p have "lb \<in> fst ` set lagg" by simp
  then obtain v where v: "map_of lagg lb = Some v"
    by (metis domD dom_map_of_conv_image_fst)
  let ?sagg' = "map (\<lambda>(b', c). (b', if b' = sb then c + v else c)) sagg"
  have upd: "setitem sagg sb (cur + v) = ?sagg'"
    using setitem_modify [OF Cons.prems(1) cur, of "\<lambda>c. c + v"] .
  have keys: "map fst ?sagg' = map fst sagg" by (rule modify_keys)
  have "\<exists>res. conversion_loop rest lagg abds ?sagg' = Inr res"
  proof (rule Cons.IH)
    show "distinct (map fst ?sagg')" using Cons.prems(1) by (simp only: keys)
    show "list_all (\<lambda>(lb, bracket).
       list_ex (\<lambda>sb. first_age_in abds sb bracket) (map fst ?sagg') \<and>
       lb \<in> fst ` set lagg) rest"
      using Cons.prems(2) by (simp only: keys) simp
  qed
  then show ?case by (simp add: p br py_first_def getitem_def look cur v upd)
qed

text \<open>
  C5.  \<^verbatim>\<open>get_aggregate_age_dictionary_conversion\<close> raises \<^verbatim>\<open>NotImplementedError\<close>
  whenever there are fewer larger brackets than smaller brackets, before anything else
  is computed.  Otherwise it never raises that error; any dictionary it returns has the
  keys of \<open>smaller_age_brackets\<close>, each mapped to the sum of the values of the larger
  brackets whose first age lies in that smaller bracket; and it does return when the
  lookups of the loop are defined.  (\<open>abdl\<close> and \<open>abds\<close> are the two age-to-bracket
  dictionaries; the first is never read.)
\<close>

theorem aggregate_conversion_direction:
  shows "(length larger_age_brackets < length smaller_age_brackets \<longrightarrow>
            get_aggregate_age_dictionary_conversion larger_aggregate_ages larger_age_brackets
              smaller_age_brackets abdl abds = Inl NotImplementedError) \<and>
         (length smaller_age_brackets \<le> length larger_age_brackets \<longrightarrow>
            get_aggregate_age_dictionary_conversion larger_aggregate_ages larger_age_brackets
              smaller_age_brackets abdl abds \<noteq> Inl NotImplementedError \<and>
            (distinct (dict_keys smaller_age_brackets) \<longrightarrow>
              (\<forall>res. get_aggregate_age_dictionary_conversion larger_aggregate_ages
                        larger_age_brackets smaller_age_brackets abdl abds = Inr res \<longrightarrow>
                 res = map (\<lambda>sb. (sb, attributed larger_aggregate_ages larger_age_brackets abds sb))
                         (dict_keys smaller_age_brackets)) \<and>
              (conversion_defined larger_aggregate_ages larger_age_brackets
                 smaller_age_brackets abds \<longrightarrow>
                 (\<exists>res. get_aggregate_age_dictionary_conversion larger_aggregate_ages
                        larger_age_brackets smaller_age_brackets abdl abds = Inr res))))"
proof (intro conjI impI allI)
  assume "length larger_age_brackets < length smaller_age_brackets"
  then show "get_aggregate_age_dictionary_conversion larger_aggregate_ages larger_age_brackets
              smaller_age_brackets abdl abds = Inl NotImplementedError"
    by (simp add: get_aggregate_age_dictionary_conversion_def)
next
  assume le: "length smaller_age_brackets \<le> length larger_age_brackets"
  let ?init = "dict_fromkeys (dict_keys smaller_age_brackets) (0::real)"
  have run: "get_aggregate_age_dictionary_conversion larger_aggregate_ages larger_age_brackets
       smaller_age_brackets abdl abds
     = conversion_loop larger_age_brackets larger_aggregate_ages abds ?init"
    using le by (simp add: get_aggregate_age_dictionary_conversion_def)
  show "get_aggregate_age_dictionary_conversion larger_aggregate_ages larger_age_brackets
          smaller_age_brackets abdl abds \<noteq> Inl NotImplementedError"
    unfolding run using conversion_loop_errors by force
  {
    assume dist: "distinct (dict_keys smaller_age_brackets)"
    have init: "?init = map (\<lambda>sb. (sb, 0)) (dict_keys smaller_age_brackets)"
      using dist by (rule dict_fromkeys_distinct)
    have keys: "map fst ?init = dict_keys smaller_age_brackets"
      unfolding init by (simp add: comp_def)
    {
      fix res
      assume "get_aggregate_age_dictionary_conversion larger_aggregate_ages
                larger_age_brackets smaller_age_brackets abdl abds = Inr res"
      then have "conversion_loop larger_age_brackets larger_aggregate_ages abds ?init = Inr res"
        by (simp only: run)
      then have "res = map (\<lambda>(sb, c). (sb, c + attributed larger_aggregate_ages
                         larger_age_brackets abds sb)) ?init"
        by (rule conversion_loop_result) (simp only: keys dist)
      then show "res = map (\<lambda>sb. (sb, attributed larger_aggregate_ages larger_age_brackets abds sb))
                         (dict_keys smaller_age_brackets)"
        by (simp add: init comp_def)
    }
    assume "conversion_defined larger_aggregate_ages larger_age_brackets
                 smaller_age_brackets abds"
    then have "list_all (\<lambda>(lb, bracket).
       list_ex (\<lambda>sb. first_age_in abds sb bracket) (map fst ?init) \<and>
       lb \<in> fst ` set larger_aggregate_ages) larger_age_brackets"
      using keys by (simp add: conversion_defined_def dict_keys_def)
    with dist show "\<exists>res. get_aggregate_age_dictionary_conversion larger_aggregate_ages
                        larger_age_brackets smaller_age_brackets abdl abds = Inr res"
      unfolding run by (intro conversion_loop_defined) (simp_all only: keys)
  }
qed

text \<open>
  One larger bracket against two smaller ones is rejected; three larger brackets
  \<^verbatim>\<open>[0,1], [2,3], [4,5]\<close> with values 5, 7, 11 go to the two smaller brackets
  \<^verbatim>\<open>[0,1,2,3], [4,5]\<close> as 12 and 11.
\<close>

theorem aggregate_conversion_direction_witness:
  "length [(0::nat, [0::int, 1])] < length [(0::nat, [0::int]), (1, [1])] \<and>
   get_aggregate_age_dictionary_conversion [(0::nat, 5)] [(0::nat, [0::int, 1])]
     [(0::nat, [0]), (1, [1])] [(0, 0), (1, 0)] [(0, 0), (1, 1)] = Inl NotImplementedError \<and>
   length [(0::nat, [0::int, 1, 2, 3]), (1, [4, 5])]
     \<le> length [(0::nat, [0::int, 1]), (1, [2, 3]), (2, [4, 5])] \<and>
   distinct (dict_keys [(0::nat, [0::int, 1, 2, 3]), (1, [4, 5])]) \<and>
   conversion_defined [(0::nat, 5), (1, 7), (2, 11)]
     [(0::nat, [0::int, 1]), (1, [2, 3]), (2, [4, 5])] [(0::nat, [0, 1, 2, 3]), (1, [4, 5])]
     [(0, 0), (1, 0), (2, 0), (3, 0), (4, 1), (5, 1)] \<and>
   get_aggregate_age_dictionary_conversion [(0::nat, 5), (1, 7), (2, 11)]
     [(0::nat, [0::int, 1]), (1, [2, 3]), (2, [4, 5])] [(0::nat, [0, 1, 2, 3]), (1, [4, 5])]
     [(0, 0), (1, 0), (2, 1), (3, 1), (4, 2), (5, 2)]
     [(0, 0), (1, 0), (2, 0), (3, 0), (4, 1), (5, 1)] = Inr [(0, 12), (1, 11)]"
  using
    aggregate_conversion_direction [of "[(0::nat, [0::int, 1])]" "[(0::nat, [0::int]), (1, [1])]"
      "[(0::nat, 5)]" "[(0, 0), (1, 0)]" "[(0, 0), (1, 1)]"]
    aggregate_conversion_direction [of "[(0::nat, [0::int, 1]), (1, [2, 3]), (2, [4, 5])]"
      "[(0::nat, [0::int, 1, 2, 3]), (1, [4, 5])]" "[(0::nat, 5), (1, 7), (2, 11)]"
      "[(0, 0), (1, 0), (2, 1), (3, 1), (4, 2), (5, 2)]"
      "[(0, 0), (1, 0), (2, 0), (3, 0), (4, 1), (5, 1)]"]
  by (auto simp: dict_keys_def conversion_defined_def first_age_in_def attributed_def)

subsection \<open>get_aggregate_matrix\<close>

lemma np_index_in_range: "0 \<le> i \<Longrightarrow> i < int n \<Longrightarrow> np_index n i = Inr (nat i)"
  by (simp add: np_index_def)

lemma np_getitem_nat: "j < length xs \<Longrightarrow> np_getitem xs (int j) = Inr (xs ! j)"
  by (simp add: np_getitem_def np_index_def)

lemma sum_list_add_at:
  "c < length xs \<Longrightarrow> sum_list (xs[c := xs ! c + x]) = sum_list xs + (x::real)"
  by (induction xs arbitrary: c) (auto split: nat.splits)

lemma matrix_sum_add_cell:
  assumes "r < length A" and "c < length (A ! r)"
  shows "matrix_sum (A[r := (A ! r)[c := A ! r ! c + x]]) = matrix_sum A + x"
proof -
  have "matrix_sum (A[r := (A ! r)[c := A ! r ! c + x]])
      = sum_list ((map sum_list A)[r := sum_list ((A ! r)[c := A ! r ! c + x])])"
    by (simp add: matrix_sum_def map_update)
  also have "\<dots> = sum_list ((map sum_list A)[r := (map sum_list A) ! r + x])"
    using assms by (simp add: sum_list_add_at)
  also have "\<dots> = sum_list (map sum_list A) + x"
    using assms(1) by (simp only: sum_list_add_at length_map)
  finally show ?thesis by (simp add: matrix_sum_def)
qed

lemma is_matrix_add_cell:
  "is_matrix k k A \<Longrightarrow> is_matrix k k (A[r := (A ! r)[c := y]])"
  by (cases "r < length A") (auto simp: is_matrix_def list_all_length nth_list_update)

lemma is_matrix_row: "is_matrix r c A \<Longrightarrow> i < r \<Longrightarrow> length (A ! i) = c"
  by (simp add: is_matrix_def list_all_length)

lemma aggregate_row_sum:
  assumes "is_matrix k k A" and "0 \<le> bi" and "bi < int k" and "i < length M"
    and "\<forall>j \<in> set js. j < length (M ! i) \<and>
           (\<exists>bj. map_of abd (int j) = Some bj \<and> 0 \<le> bj \<and> bj < int k)"
  shows "\<exists>A'. aggregate_row M abd i bi js A = Inr A' \<and> is_matrix k k A' \<and>
           matrix_sum A' = matrix_sum A + sum_list (map (\<lambda>j. M ! i ! j) js)"
  using assms(1,5)
proof (induction js arbitrary: A)
  case Nil
  then show ?case by simp
next
  case (Cons j js)
  from Cons.prems(2) obtain bj where bj: "map_of abd (int j) = Some bj" "0 \<le> bj" "bj < int k"
    and j: "j < length (M ! i)" by auto
  have len: "length A = k" using Cons.prems(1) by (simp add: is_matrix_def)
  have r: "np_index (length A) bi = Inr (nat bi)"
    using assms(2,3) len by (simp add: np_index_in_range)
  have rowlen: "length (A ! nat bi) = k"
    using Cons.prems(1) assms(2,3) by (intro is_matrix_row [of k k]) auto
  have c: "np_index (length (A ! nat bi)) bj = Inr (nat bj)"
    using bj rowlen by (simp add: np_index_in_range)
  have row: "np_getitem M (int i) = Inr (M ! i)" using assms(4) by (rule np_getitem_nat)
  have cell: "np_getitem (M ! i) (int j) = Inr (M ! i ! j)" using j by (rule np_getitem_nat)
  let ?A = "A[nat bi := (A ! nat bi)[nat bj := A ! nat bi ! nat bj + M ! i ! j]]"
  have step: "aggregate_row M abd i bi (j # js) A = aggregate_row M abd i bi js ?A"
    by (simp add: getitem_def bj r c row cell)
  have shape: "is_matrix k k ?A" using Cons.prems(1) by (rule is_matrix_add_cell)
  have sum: "matrix_sum ?A = matrix_sum A + M ! i ! j"
    using assms(2,3) bj len rowlen by (intro matrix_sum_add_cell) auto
  from Cons.IH [OF shape] Cons.prems(2)
  obtain A' where "aggregate_row M abd i bi js ?A = Inr A'" "is_matrix k k A'"
    "matrix_sum A' = matrix_sum ?A + sum_list (map (\<lambda>j. M ! i ! j) js)" by auto
  then show ?case unfolding step by (simp add: sum)
qed

lemma aggregate_rows_sum:
  assumes "is_matrix k k A"
    and "\<forall>i \<in> set is. i < length M \<and>
           (\<exists>bi. map_of abd (int i) = Some bi \<and> 0 \<le> bi \<and> bi < int k)"
    and "\<forall>i \<in> set is. \<forall>j \<in> set cols. j < length (M ! i)"
    and "\<forall>j \<in> set cols. \<exists>bj. map_of abd (int j) = Some bj \<and> 0 \<le> bj \<and> bj < int k"
  shows "\<exists>A'. aggregate_rows M abd is cols A = Inr A' \<and> is_matrix k k A' \<and>
           matrix_sum A' = matrix_sum A
             + sum_list (map (\<lambda>i. sum_list (map (\<lambda>j. M ! i ! j) cols)) is)"
  using assms(1,2,3)
proof (induction "is" arbitrary: A)
  case Nil
  then show ?case by simp
next
  case (Cons i "is")
  from Cons.prems(2) obtain bi where bi: "map_of abd (int i) = Some bi" "0 \<le> bi" "bi < int k"
    and i: "i < length M" by auto
  have "\<forall>j \<in> set cols. j < length (M ! i) \<and>
           (\<exists>bj. map_of abd (int j) = Some bj \<and> 0 \<le> bj \<and> bj < int k)"
    using Cons.prems(3) assms(4) by simp
  from aggregate_row_sum [OF Cons.prems(1) bi(2,3) i this]
  obtain A1 where A1: "aggregate_row M abd i bi cols A = Inr A1" "is_matrix k k A1"
    "matrix_sum A1 = matrix_sum A + sum_list (map (\<lambda>j. M ! i ! j) cols)" by blast
  from Cons.IH [OF A1(2)] Cons.prems(2,3)
  obtain A' where "aggregate_rows M abd is cols A1 = Inr A'" "is_matrix k k A'"
    "matrix_sum A' = matrix_sum A1
       + sum_list (map (\<lambda>i. sum_list (map (\<lambda>j. M ! i ! j) cols)) is)" by auto
  then show ?case by (simp add: getitem_def bi A1)
qed

lemma matrix_sum_cells:
  assumes "is_matrix n n M"
  shows "sum_list (map (\<lambda>i. sum_list (map (\<lambda>j. M ! i ! j) [0..<n])) [0..<n]) = matrix_sum M"
proof -
  have len: "length M = n" using assms by (simp add: is_matrix_def)
  have "map (\<lambda>i. sum_list (map (\<lambda>j. M ! i ! j) [0..<n])) [0..<n]
      = map (\<lambda>i. sum_list (M ! i)) [0..<n]"
  proof (rule map_cong [OF refl])
    fix i assume "i \<in> set [0..<n]"
    then have "length (M ! i) = n" using assms by (intro is_matrix_row [of n n]) auto
    then have "map (\<lambda>j. M ! i ! j) [0..<n] = M ! i" using map_nth [of "M ! i"] by simp
    then show "sum_list (map (\<lambda>j. M ! i ! j) [0..<n]) = sum_list (M ! i)" by simp
  qed
  also have "\<dots> = map sum_list (map (\<lambda>i. M ! i) [0..<length M])" by (simp add: len comp_def)
  also have "\<dots> = map sum_list M" by (simp only: map_nth)
  finally show ?thesis by (simp add: matrix_sum_def)
qed

lemma matrix_sum_zeros: "matrix_sum (np_zeros r c) = 0"
  by (simp add: matrix_sum_def np_zeros_def sum_list_replicate)

lemma is_matrix_zeros: "is_matrix r c (np_zeros r c)"
  by (simp add: is_matrix_def np_zeros_def list_all_iff)

text \<open>
  C2.  For an \<open>N \<times> N\<close> matrix \<open>M\<close> and a dictionary that gives every index
  \<open>0, ..., N - 1\<close> a bracket id, the bracket ids in use being exactly \<open>0, ..., k - 1\<close>,
  \<^verbatim>\<open>get_aggregate_matrix\<close> returns a \<open>k \<times> k\<close> matrix whose cells sum to the sum of
  the cells of \<open>M\<close>.
\<close>

theorem aggregate_matrix_preserves_sum:
  assumes "is_matrix (length M) (length M) M"
    and "\<forall>i < length M. int i \<in> set (dict_keys age_by_brackets_dictionary)"
    and "set (dict_values age_by_brackets_dictionary) = int ` {0..<k}"
  shows "\<exists>M_agg. get_aggregate_matrix M age_by_brackets_dictionary = Inr M_agg \<and>
           is_matrix k k M_agg \<and> matrix_sum M_agg = matrix_sum M"
proof -
  let ?abd = age_by_brackets_dictionary
  let ?N = "length M"
  have "card (set (dict_values ?abd)) = k"
    unfolding assms(3) by (simp add: card_image)
  then have num: "length (py_set (dict_values ?abd)) = k"
    by (simp add: py_set_def length_remdups_card_conv)
  have bracket: "\<exists>b. map_of ?abd (int i) = Some b \<and> 0 \<le> b \<and> b < int k" if "i < ?N" for i
  proof -
    from that assms(2) have "int i \<in> fst ` set ?abd" by (simp add: dict_keys_def)
    then obtain b where b: "map_of ?abd (int i) = Some b"
      by (metis domD dom_map_of_conv_image_fst)
    then have "(int i, b) \<in> set ?abd" by (rule map_of_SomeD)
    then have "b \<in> set (dict_values ?abd)" by (force simp: dict_values_def)
    then have "b \<in> int ` {0..<k}" by (simp only: assms(3))
    with b show ?thesis by auto
  qed
  have rows: "\<forall>i \<in> set [0..<?N]. \<forall>j \<in> set [0..<?N]. j < length (M ! i)"
    using assms(1) by (auto simp: is_matrix_def list_all_length)
  from aggregate_rows_sum [of k "np_zeros k k" "[0..<?N]" M ?abd "[0..<?N]"]
    is_matrix_zeros [of k k] bracket rows
  obtain A where A: "aggregate_rows M ?abd [0..<?N] [0..<?N] (np_zeros k k) = Inr A"
    "is_matrix k k A"
    "matrix_sum A = matrix_sum (np_zeros k k)
       + sum_list (map (\<lambda>i. sum_list (map (\<lambda>j. M ! i ! j) [0..<?N])) [0..<?N])"
    by auto
  have "matrix_sum A = matrix_sum M"
    using A(3) matrix_sum_cells [OF assms(1)] by (simp add: matrix_sum_zeros)
  with A(1,2) show ?thesis by (simp add: get_aggregate_matrix_def num)
qed

text \<open>A \<open>3 \<times> 3\<close> matrix with the ages 0 and 1 in bracket 0 and the age 2 in bracket 1.\<close>

theorem aggregate_matrix_preserves_sum_witness:
  "is_matrix (length [[1, 2, 3], [4, 5, 6], [7, 8, 9::real]])
     (length [[1, 2, 3], [4, 5, 6], [7, 8, 9::real]]) [[1, 2, 3], [4, 5, 6], [7, 8, 9]] \<and>
   list_all (\<lambda>i. int i \<in> set (dict_keys [(0::int, 0::int), (1, 0), (2, 1)])) [0, 1, 2] \<and>
   set (dict_values [(0::int, 0::int), (1, 0), (2, 1)]) = int ` {0..<2} \<and>
   get_aggregate_matrix [[1, 2, 3], [4, 5, 6], [7, 8, 9]] [(0, 0), (1, 0), (2, 1)]
     = Inr [[12, 9], [15, 9]] \<and>
   matrix_sum [[12, 9], [15, 9]] = matrix_sum [[1, 2, 3], [4, 5, 6], [7, 8, 9]]"
proof -
  let ?M = "[[1, 2, 3], [4, 5, 6], [7, 8, 9::real]]"
  let ?abd = "[(0::int, 0::int), (1, 0), (2, 1)]"
  have h1: "is_matrix (length ?M) (length ?M) ?M" by (simp add: is_matrix_def)
  have h2: "\<forall>i < length ?M. int i \<in> set (dict_keys ?abd)"
    by (auto simp: dict_keys_def less_Suc_eq numeral_3_eq_3)
  have "{0..<2::nat} = {0, 1}" by auto
  then have h3: "set (dict_values ?abd) = int ` {0..<2}" by (auto simp: dict_values_def)
  have ev: "get_aggregate_matrix ?M ?abd = Inr [[12, 9], [15, 9]]"
    by (simp add: get_aggregate_matrix_def py_set_def dict_values_def np_zeros_def
        getitem_def np_index_def np_getitem_def upt_rec numeral_2_eq_2)
  show ?thesis
    using aggregate_matrix_preserves_sum [OF h1 h2 h3] h1 h3 ev
    by (simp add: dict_keys_def matrix_sum_def)
qed

subsection \<open>get_symmetric_community_matrix\<close>

lemma scale_step_shape:
  "is_matrix N N M \<Longrightarrow> is_matrix N N (scale_column a w (scale_row a v M))"
  by (cases "a < length M")
     (auto simp: is_matrix_def list_all_length scale_row_def scale_column_def nth_list_update)

lemma nth_scale_at:
  "j < length xs \<Longrightarrow> xs[a := xs ! a * w] ! j = xs ! j * (if j = a then w else (1::real))"
  by (simp add: nth_list_update)

lemma scale_step_cell:
  assumes "is_matrix N N M" and "i < N" and "j < N"
  shows "scale_column a w (scale_row a v M) ! i ! j
         = M ! i ! j * (if i = a then v else 1) * (if j = a then w else 1)"
proof -
  have len: "length M = N" using assms(1) by (simp add: is_matrix_def)
  have rowlen: "length (M ! i) = N" using assms(1,2) by (rule is_matrix_row)
  let ?R = "scale_row a v M ! i"
  have row: "?R = (if i = a then map (\<lambda>x. x * v) (M ! i) else M ! i)"
    using assms(2) len by (simp add: scale_row_def nth_list_update)
  have Rlen: "length ?R = N" using rowlen by (auto simp: row)
  have "scale_column a w (scale_row a v M) ! i ! j = (?R[a := ?R ! a * w]) ! j"
    using assms(2) len by (simp add: scale_column_def scale_row_def)
  also have "\<dots> = ?R ! j * (if j = a then w else 1)"
    using assms(3) Rlen by (simp only: nth_scale_at)
  also have "?R ! j = M ! i ! j * (if i = a then v else 1)"
    using assms(3) rowlen by (auto simp: row)
  finally show ?thesis .
qed

lemma community_scale_cells:
  assumes "\<forall>a \<in> set as. map_of ages (int a) = Some (n a)"
  shows "is_matrix N N M \<Longrightarrow>
         \<exists>M'. community_scale ages as M = Inr M' \<and> is_matrix N N M' \<and>
           (\<forall>i<N. \<forall>j<N. M' ! i ! j
              = M ! i ! j * prod_list (map (\<lambda>a. if i = a then n a else 1) as)
                  * prod_list (map (\<lambda>a. if j = a then n a else 1) as))"
  using assms
proof (induction as arbitrary: M)
  case Nil
  then show ?case by simp
next
  case (Cons a as)
  have look: "map_of ages (int a) = Some (n a)" using Cons.prems(2) by simp
  let ?M = "scale_column a (n a) (scale_row a (n a) M)"
  have step: "community_scale ages (a # as) M = community_scale ages as ?M"
    by (simp add: getitem_def look)
  have shape: "is_matrix N N ?M" using Cons.prems(1) by (rule scale_step_shape)
  from Cons.IH [OF shape] Cons.prems(2)
  obtain M' where M': "community_scale ages as ?M = Inr M'" "is_matrix N N M'"
    and cells: "\<forall>i<N. \<forall>j<N. M' ! i ! j
              = ?M ! i ! j * prod_list (map (\<lambda>a. if i = a then n a else 1) as)
                  * prod_list (map (\<lambda>a. if j = a then n a else 1) as)"
    by auto
  have "M' ! i ! j
      = M ! i ! j * prod_list (map (\<lambda>a. if i = a then n a else 1) (a # as))
          * prod_list (map (\<lambda>a. if j = a then n a else 1) (a # as))"
    if "i < N" "j < N" for i j
    using cells that scale_step_cell [OF Cons.prems(1) that, of a "n a" "n a"] by simp
  with M' show ?case unfolding step by blast
qed

lemma diagonal_step_shape:
  "is_matrix N N M \<Longrightarrow> is_matrix N N (M[a := (M ! a)[a := y]])"
  by (rule is_matrix_add_cell)

lemma diagonal_step_cell:
  assumes "is_matrix N N M" and "i < N" and "j < N"
  shows "M[a := (M ! a)[a := M ! a ! a - v]] ! i ! j
         = M ! i ! j - (if i = a \<and> j = a then v else 0)"
proof -
  have len: "length M = N" using assms(1) by (simp add: is_matrix_def)
  have rowlen: "length (M ! i) = N" using assms(1,2) by (rule is_matrix_row)
  show ?thesis
  proof (cases "i = a")
    case True
    then show ?thesis using assms(2,3) len rowlen by (simp add: nth_list_update)
  next
    case False
    then show ?thesis using assms(2) len by simp
  qed
qed

lemma community_diagonal_cells:
  assumes "\<forall>a \<in> set as. map_of ages (int a) = Some (n a)"
  shows "is_matrix N N M \<Longrightarrow>
         \<exists>M'. community_diagonal ages as M = Inr M' \<and> is_matrix N N M' \<and>
           (\<forall>i<N. \<forall>j<N. M' ! i ! j
              = M ! i ! j - sum_list (map (\<lambda>a. if i = a \<and> j = a then n a else 0) as))"
  using assms
proof (induction as arbitrary: M)
  case Nil
  then show ?case by simp
next
  case (Cons a as)
  have look: "map_of ages (int a) = Some (n a)" using Cons.prems(2) by simp
  let ?M = "M[a := (M ! a)[a := M ! a ! a - n a]]"
  have step: "community_diagonal ages (a # as) M = community_diagonal ages as ?M"
    by (simp add: getitem_def look)
  have shape: "is_matrix N N ?M" using Cons.prems(1) by (rule diagonal_step_shape)
  from Cons.IH [OF shape] Cons.prems(2)
  obtain M' where M': "community_diagonal ages as ?M = Inr M'" "is_matrix N N M'"
    and cells: "\<forall>i<N. \<forall>j<N. M' ! i ! j
              = ?M ! i ! j - sum_list (map (\<lambda>a. if i = a \<and> j = a then n a else 0) as)"
    by auto
  have "M' ! i ! j
      = M ! i ! j - sum_list (map (\<lambda>a. if i = a \<and> j = a then n a else 0) (a # as))"
    if "i < N" "j < N" for i j
    using cells that diagonal_step_cell [OF Cons.prems(1) that, of a "n a"] by simp
  with M' show ?case unfolding step by blast
qed

lemma prod_list_delta_none:
  "N \<le> i \<Longrightarrow> prod_list (map (\<lambda>a. if i = a then n a else 1) [0..<N]) = (1 :: real)"
  by (induction N) auto

lemma prod_list_delta:
  "i < N \<Longrightarrow> prod_list (map (\<lambda>a. if i = a then n a else 1) [0..<N]) = (n i :: real)"
  by (induction N) (auto simp: less_Suc_eq prod_list_delta_none)

lemma sum_list_delta_none:
  "N \<le> i \<Longrightarrow> sum_list (map (\<lambda>a. if i = a then n a else 0) [0..<N]) = (0 :: real)"
  by (induction N) auto

lemma sum_list_delta_same:
  "i < N \<Longrightarrow> sum_list (map (\<lambda>a. if i = a then n a else 0) [0..<N]) = (n i :: real)"
  by (induction N) (auto simp: less_Suc_eq sum_list_delta_none)

lemma sum_list_delta_diff:
  "i \<noteq> j \<Longrightarrow> sum_list (map (\<lambda>a. if i = a \<and> j = a then n a else 0) as) = (0 :: real)"
  by (induction as) auto

lemma sum_list_delta:
  "i < N \<Longrightarrow> sum_list (map (\<lambda>a. if i = a \<and> j = a then n a else 0) [0..<N])
     = (if i = j then n i else (0::real))"
  by (cases "i = j") (simp_all add: sum_list_delta_same sum_list_delta_diff)

lemma is_matrix_ones: "is_matrix r c (np_ones r c)"
  by (simp add: is_matrix_def np_ones_def list_all_iff)

lemma np_divide_cells:
  assumes "d \<noteq> 0" and "is_matrix N N M"
  shows "\<exists>M'. np_divide M d = Inr M' \<and> is_matrix N N M' \<and>
           (\<forall>i<N. \<forall>j<N. M' ! i ! j = M ! i ! j / d)"
proof -
  have "is_matrix N N (map (map (\<lambda>x. x / d)) M)"
    using assms(2) by (simp add: is_matrix_def list_all_iff)
  moreover have "map (map (\<lambda>x. x / d)) M ! i ! j = M ! i ! j / d" if "i < N" "j < N" for i j
  proof -
    have "i < length M" using assms(2) that by (simp add: is_matrix_def)
    moreover have "j < length (M ! i)" using is_matrix_row [OF assms(2) that(1)] that by simp
    ultimately show ?thesis by simp
  qed
  ultimately show ?thesis using assms(1) by (simp add: np_divide_def)
qed

text \<open>
  C1.  For a population dictionary with the keys \<open>0, ..., N - 1\<close> whose sizes sum to a
  total \<open>T \<noteq> 1\<close> (in particular \<open>T > 1\<close>), \<^verbatim>\<open>get_symmetric_community_matrix\<close>
  returns an \<open>N \<times> N\<close> matrix with the diagonal cells \<open>(n\<^sub>i\<^sup>2 - n\<^sub>i) / (T - 1)\<close> and the
  other cells \<open>n\<^sub>i n\<^sub>j / (T - 1)\<close>; the matrix is symmetric.
\<close>

theorem symmetric_community_matrix_cells:
  assumes "set (dict_keys ages) = int ` {0..<length ages}"
    and "sum_list (dict_values ages) \<noteq> 1"
  shows "\<exists>M. get_symmetric_community_matrix ages = Inr M \<and>
           is_matrix (length ages) (length ages) M \<and>
           (\<forall>i<length ages. \<forall>j<length ages. \<forall>ni nj.
              map_of ages (int i) = Some ni \<longrightarrow> map_of ages (int j) = Some nj \<longrightarrow>
              M ! i ! i = (ni\<^sup>2 - ni) / (sum_list (dict_values ages) - 1) \<and>
              (i \<noteq> j \<longrightarrow> M ! i ! j = ni * nj / (sum_list (dict_values ages) - 1)) \<and>
              M ! i ! j = M ! j ! i)"
proof -
  let ?N = "length ages"
  let ?T = "sum_list (dict_values ages)"
  define n where "n a = (case map_of ages (int a) of None \<Rightarrow> 0 | Some v \<Rightarrow> v)" for a
  have look: "map_of ages (int a) = Some (n a)" if "a < ?N" for a
  proof -
    from that assms(1) have "int a \<in> fst ` set ages" by (simp add: dict_keys_def)
    then obtain v where "map_of ages (int a) = Some v"
      by (metis domD dom_map_of_conv_image_fst)
    then show ?thesis by (simp add: n_def)
  qed
  then have all: "\<forall>a \<in> set [0..<?N]. map_of ages (int a) = Some (n a)" by simp
  from community_scale_cells [OF all is_matrix_ones [of ?N ?N]]
  obtain M1 where M1: "community_scale ages [0..<?N] (np_ones ?N ?N) = Inr M1"
    "is_matrix ?N ?N M1"
    and c1: "\<forall>i<?N. \<forall>j<?N. M1 ! i ! j = np_ones ?N ?N ! i ! j
        * prod_list (map (\<lambda>a. if i = a then n a else 1) [0..<?N])
        * prod_list (map (\<lambda>a. if j = a then n a else 1) [0..<?N])"
    by blast
  have cell1: "M1 ! i ! j = n i * n j" if "i < ?N" "j < ?N" for i j
    using c1 that by (simp add: prod_list_delta np_ones_def)
  from community_diagonal_cells [OF all M1(2)]
  obtain M2 where M2: "community_diagonal ages [0..<?N] M1 = Inr M2" "is_matrix ?N ?N M2"
    and c2: "\<forall>i<?N. \<forall>j<?N. M2 ! i ! j = M1 ! i ! j
        - sum_list (map (\<lambda>a. if i = a \<and> j = a then n a else 0) [0..<?N])"
    by blast
  have cell2: "M2 ! i ! j = n i * n j - (if i = j then n i else 0)" if "i < ?N" "j < ?N" for i j
    using c2 that by (simp add: sum_list_delta cell1)
  have nz: "?T - 1 \<noteq> 0" using assms(2) by simp
  from np_divide_cells [OF nz M2(2)]
  obtain M where M: "np_divide M2 (?T - 1) = Inr M" "is_matrix ?N ?N M"
    and c3: "\<forall>i<?N. \<forall>j<?N. M ! i ! j = M2 ! i ! j / (?T - 1)"
    by blast
  have cell: "M ! i ! j = (n i * n j - (if i = j then n i else 0)) / (?T - 1)"
    if "i < ?N" "j < ?N" for i j
    using c3 that by (simp add: cell2)
  have res: "get_symmetric_community_matrix ages = Inr M"
    by (simp add: get_symmetric_community_matrix_def M1 M2 M)
  show ?thesis
  proof (intro exI [of _ M] conjI allI impI)
    show "get_symmetric_community_matrix ages = Inr M" by (rule res)
    show "is_matrix ?N ?N M" by (rule M(2))
  next
    fix i j ni nj
    assume ij: "i < ?N" "j < ?N"
      and "map_of ages (int i) = Some ni" "map_of ages (int j) = Some nj"
    then have ni: "n i = ni" and nj: "n j = nj" by (simp_all add: n_def)
    show "M ! i ! i = (ni\<^sup>2 - ni) / (?T - 1)"
      using cell [OF ij(1) ij(1)] by (simp add: ni power2_eq_square)
    show "M ! i ! j = M ! j ! i"
      using cell [OF ij] cell [OF ij(2) ij(1)] by (simp add: mult.commute)
    assume "i \<noteq> j"
    then show "M ! i ! j = ni * nj / (?T - 1)" using cell [OF ij] by (simp add: ni nj)
  qed
qed

text \<open>Three cohorts of the sizes 2, 3 and 5: the total is 10 and every cell is divided by 9.\<close>

theorem symmetric_community_matrix_cells_witness:
  "set (dict_keys [(0::int, 2::real), (1, 3), (2, 5)])
     = int ` {0..<length [(0::int, 2::real), (1, 3), (2, 5)]} \<and>
   sum_list (dict_values [(0::int, 2::real), (1, 3), (2, 5)]) = 10 \<and>
   get_symmetric_community_matrix [(0, 2), (1, 3), (2, 5)]
     = Inr [[2 / 9, 6 / 9, 10 / 9], [6 / 9, 6 / 9, 15 / 9], [10 / 9, 15 / 9, 20 / 9]]"
proof -
  let ?ages = "[(0::int, 2::real), (1, 3), (2, 5)]"
  have "{0..<3::nat} = {0, 1, 2}" by auto
  then have h1: "set (dict_keys ?ages) = int ` {0..<length ?ages}"
    by (auto simp: dict_keys_def)
  have h2: "sum_list (dict_values ?ages) \<noteq> 1" by (simp add: dict_values_def)
  have ev: "get_symmetric_community_matrix ?ages
     = Inr [[2 / 9, 6 / 9, 10 / 9], [6 / 9, 6 / 9, 15 / 9], [10 / 9, 15 / 9, 20 / 9]]"
    by (simp add: get_symmetric_community_matrix_def np_ones_def getitem_def scale_row_def
        scale_column_def np_divide_def dict_values_def upt_rec numeral_3_eq_3)
  show ?thesis
    using symmetric_community_matrix_cells [OF h1 h2] h1 ev by (simp add: dict_values_def)
qed

subsection \<open>get_asymmetric_matrix\<close>





subsection \<open>combine_matrices\<close>

lemma np_shape_matrix: "is_matrix n n X \<Longrightarrow> np_shape X = (n, n)"
  by (cases X) (auto simp: is_matrix_def np_shape_def)

lemma np_shape_scale: "np_shape (np_scale X w) = np_shape X"
  by (cases X) (simp_all add: np_shape_def np_scale_def)

lemma is_matrix_scale: "is_matrix r c X \<Longrightarrow> is_matrix r c (np_scale X w)"
  by (simp add: is_matrix_def np_scale_def list_all_iff)

lemma np_scale_cell:
  "is_matrix r c X \<Longrightarrow> i < r \<Longrightarrow> j < c \<Longrightarrow> np_scale X w ! i ! j = X ! i ! j * w"
  by (simp add: is_matrix_def np_scale_def list_all_length)

lemma np_iadd_shape:
  assumes "np_iadd M Y = Inr M'" and "is_matrix n n M"
  shows "is_matrix n n M'"
proof -
  have "np_shape M = (n, n)" using assms(2) by (rule np_shape_matrix)
  with assms(1) have "M' = map (\<lambda>i. map (\<lambda>j. M ! i ! j + broadcast_cell Y i j) [0..<n]) [0..<n]"
    by (simp add: np_iadd_def split: if_splits)
  then show ?thesis by (simp add: is_matrix_def list_all_iff)
qed

lemma np_iadd_same_shape:
  assumes "is_matrix n n M" and "is_matrix n n Y"
  shows "\<exists>M'. np_iadd M Y = Inr M' \<and> is_matrix n n M' \<and>
           (\<forall>i<n. \<forall>j<n. M' ! i ! j = M ! i ! j + Y ! i ! j)"
proof -
  let ?M' = "map (\<lambda>i. map (\<lambda>j. M ! i ! j + broadcast_cell Y i j) [0..<n]) [0..<n]"
  have run: "np_iadd M Y = Inr ?M'"
    using assms by (simp add: np_iadd_def np_shape_matrix broadcastable_def)
  have cell: "broadcast_cell Y i j = Y ! i ! j" if "i < n" "j < n" for i j
    using that by (auto simp: broadcast_cell_def np_shape_matrix [OF assms(2)])
  have "?M' ! i ! j = M ! i ! j + Y ! i ! j" if "i < n" "j < n" for i j
    using that by (simp add: cell)
  moreover have "is_matrix n n ?M'" using run assms(1) by (rule np_iadd_shape)
  ultimately show ?thesis using run by blast
qed

lemma combine_loop_cells:
  "is_matrix n n M \<Longrightarrow> weighted_settings_square md rest n \<Longrightarrow>
   \<exists>R. combine_loop rest md M = Inr R \<and> is_matrix n n R \<and>
     (\<forall>i<n. \<forall>j<n. R ! i ! j = M ! i ! j + weighted_cell md rest i j)"
proof (induction rest arbitrary: M)
  case Nil
  then show ?case by (simp add: weighted_cell_def)
next
  case (Cons p rest)
  obtain s w where p: "p = (s, w)" by (cases p)
  from Cons.prems(2) p obtain X where X: "map_of md s = Some X" "is_matrix n n X"
    and rest: "weighted_settings_square md rest n"
    by (auto simp: weighted_settings_square_def split: option.splits)
  from np_iadd_same_shape [OF Cons.prems(1) is_matrix_scale [OF X(2), of w]]
  obtain M' where M': "np_iadd M (np_scale X w) = Inr M'" "is_matrix n n M'"
    and c1: "\<forall>i<n. \<forall>j<n. M' ! i ! j = M ! i ! j + np_scale X w ! i ! j" by blast
  from Cons.IH [OF M'(2) rest]
  obtain R where R: "combine_loop rest md M' = Inr R" "is_matrix n n R"
    and c2: "\<forall>i<n. \<forall>j<n. R ! i ! j = M' ! i ! j + weighted_cell md rest i j" by blast
  have step: "combine_loop (p # rest) md M = combine_loop rest md M'"
    by (simp add: p getitem_def X(1) M'(1))
  have "R ! i ! j = M ! i ! j + weighted_cell md (p # rest) i j" if "i < n" "j < n" for i j
    using c1 c2 that np_scale_cell [OF X(2) that, of w]
    by (simp add: weighted_cell_def p X(1) mult.commute)
  with R show ?case unfolding step by blast
qed

lemma combine_loop_cong:
  "\<forall>s \<in> fst ` set rest. map_of md' s = map_of md s \<Longrightarrow>
   combine_loop rest md' M = combine_loop rest md M"
  by (induction rest arbitrary: M) (auto simp: getitem_def split: option.splits sum.splits)

lemma np_zeros_cell: "i < r \<Longrightarrow> j < c \<Longrightarrow> np_zeros r c ! i ! j = 0"
  by (simp add: np_zeros_def)

text \<open>
  C7.  When every setting of the weight dictionary has an \<open>n \<times> n\<close> matrix,
  \<^verbatim>\<open>combine_matrices\<close> returns the \<open>n \<times> n\<close> matrix whose cell \<open>(i, j)\<close> is the sum,
  over the settings of the weight dictionary, of weight times the cell \<open>(i, j)\<close> of the
  setting's matrix (the zero matrix for no weights).  A setting without a weight
  contributes nothing: any matrix dictionary that agrees on the weighted settings
  gives the same result.
\<close>

theorem combine_matrices_weighted_sum:
  assumes "weighted_settings_square matrix_dictionary weights_dictionary n"
  shows "\<exists>M. combine_matrices matrix_dictionary weights_dictionary (int n) = Inr M \<and>
           is_matrix n n M \<and>
           (\<forall>i<n. \<forall>j<n. M ! i ! j = weighted_cell matrix_dictionary weights_dictionary i j) \<and>
           (\<forall>other. (\<forall>s \<in> set (dict_keys weights_dictionary).
                        map_of other s = map_of matrix_dictionary s) \<longrightarrow>
              combine_matrices other weights_dictionary (int n) = Inr M)"
proof -
  from combine_loop_cells [OF is_matrix_zeros [of n n] assms]
  obtain M where M: "combine_loop weights_dictionary matrix_dictionary (np_zeros n n) = Inr M"
    "is_matrix n n M"
    and cells: "\<forall>i<n. \<forall>j<n. M ! i ! j
        = np_zeros n n ! i ! j + weighted_cell matrix_dictionary weights_dictionary i j"
    by blast
  have res: "combine_matrices matrix_dictionary weights_dictionary (int n) = Inr M"
    by (simp add: combine_matrices_def M(1))
  have "combine_matrices other weights_dictionary (int n) = Inr M"
    if "\<forall>s \<in> set (dict_keys weights_dictionary). map_of other s = map_of matrix_dictionary s"
    for other
  proof -
    have "combine_loop weights_dictionary other (np_zeros n n)
        = combine_loop weights_dictionary matrix_dictionary (np_zeros n n)"
      using that by (intro combine_loop_cong) (simp add: dict_keys_def)
    then show ?thesis by (simp add: combine_matrices_def M(1))
  qed
  moreover have "M ! i ! j = weighted_cell matrix_dictionary weights_dictionary i j"
    if "i < n" "j < n" for i j
    using cells that by (simp add: np_zeros_cell)
  ultimately show ?thesis using res M(2) by blast
qed

text \<open>
  The example of the specification: the matrices \<^verbatim>\<open>[[1,2],[2,1]]\<close> and
  \<^verbatim>\<open>[[3,0],[0,3]]\<close> with the weights 0.5 and 0.5 combine to \<^verbatim>\<open>[[2,1],[1,2]]\<close>, also
  in the presence of a third matrix without a weight.
\<close>

theorem combine_matrices_weighted_sum_witness:
  "weighted_settings_square [(''a'', [[1, 2], [2, 1]]), (''b'', [[3, 0], [0, 3]])]
     [(''a'', 1 / 2), (''b'', 1 / 2)] 2 \<and>
   combine_matrices [(''a'', [[1, 2], [2, 1]]), (''b'', [[3, 0], [0, 3]])]
     [(''a'', 1 / 2), (''b'', 1 / 2)] (int 2) = Inr [[2, 1], [1, 2]] \<and>
   combine_matrices [(''a'', [[1, 2], [2, 1]]), (''b'', [[3, 0], [0, 3]]), (''c'', [[7, 7], [7, 7]])]
     [(''a'', 1 / 2), (''b'', 1 / 2)] (int 2) = Inr [[2, 1], [1, 2]]"
proof -
  let ?md = "[(''a'', [[1, 2], [2, 1::real]]), (''b'', [[3, 0], [0, 3]])]"
  let ?wd = "[(''a'', 1 / 2 :: real), (''b'', 1 / 2)]"
  have h: "weighted_settings_square ?md ?wd 2"
    by (simp add: weighted_settings_square_def is_matrix_def)
  from combine_matrices_weighted_sum [OF h]
  obtain M where M: "combine_matrices ?md ?wd (int 2) = Inr M" "is_matrix 2 2 M"
    and cells: "\<forall>i<2. \<forall>j<2. M ! i ! j = weighted_cell ?md ?wd i j"
    and other: "\<forall>other. (\<forall>s \<in> set (dict_keys ?wd). map_of other s = map_of ?md s) \<longrightarrow>
              combine_matrices other ?wd (int 2) = Inr M"
    by blast
  have ev: "combine_matrices ?md ?wd (int 2) = Inr [[2, 1], [1, 2]]"
    by (simp add: combine_matrices_def np_zeros_def getitem_def np_iadd_def np_shape_def
        np_scale_def broadcastable_def broadcast_cell_def upt_rec numeral_2_eq_2)
  then have "M = [[2, 1], [1, 2]]" using M(1) by simp
  moreover have "combine_matrices (?md @ [(''c'', [[7, 7], [7, 7]])]) ?wd (int 2) = Inr M"
    using other by (simp add: dict_keys_def)
  ultimately show ?thesis using h ev by simp
qed

lemma np_iadd_square:
  "is_matrix n n M \<Longrightarrow>
   np_iadd M Y = (if broadcastable (np_shape Y) (n, n)
     then Inr (map (\<lambda>i. map (\<lambda>j. M ! i ! j + broadcast_cell Y i j) [0..<n]) [0..<n])
     else Inl ValueError_broadcast)"
  by (simp add: np_iadd_def np_shape_matrix)

lemma combine_loop_mismatch:
  "is_matrix n n M \<Longrightarrow> shape_mismatch md rest n \<Longrightarrow> \<exists>e. combine_loop rest md M = Inl e"
proof (induction rest arbitrary: M)
  case Nil
  then show ?case by (simp add: shape_mismatch_def)
next
  case (Cons p rest)
  obtain s w where p: "p = (s, w)" by (cases p)
  show ?case
  proof (cases "map_of md s")
    case None
    then show ?thesis by (simp add: p getitem_def)
  next
    case (Some X)
    show ?thesis
    proof (cases "broadcastable (np_shape X) (n, n)")
      case False
      then show ?thesis
        using Cons.prems(1) by (simp add: p getitem_def Some np_iadd_square np_shape_scale)
    next
      case True
      let ?M' = "map (\<lambda>i. map (\<lambda>j. M ! i ! j + broadcast_cell (np_scale X w) i j) [0..<n]) [0..<n]"
      have add: "np_iadd M (np_scale X w) = Inr ?M'"
        using Cons.prems(1) True by (simp add: np_iadd_square np_shape_scale)
      have shape: "is_matrix n n ?M'" using add Cons.prems(1) by (rule np_iadd_shape)
      have "shape_mismatch md rest n"
        using Cons.prems(2) True by (simp add: shape_mismatch_def p Some)
      from Cons.IH [OF shape this] show ?thesis by (simp add: p getitem_def Some add)
    qed
  qed
qed

lemma combine_loop_error_kind:
  "combine_loop rest md M = Inl e \<Longrightarrow> all_present md rest \<Longrightarrow> e = ValueError_broadcast"
proof (induction rest arbitrary: M)
  case Nil
  then show ?case by simp
next
  case (Cons p rest)
  obtain s w where p: "p = (s, w)" by (cases p)
  from Cons.prems(2) p obtain X where X: "map_of md s = Some X"
    and rest: "all_present md rest" by (auto simp: all_present_def)
  show ?case
  proof (cases "np_iadd M (np_scale X w)")
    case (Inl e')
    then have "e' = ValueError_broadcast" by (simp add: np_iadd_def split: if_splits)
    with Inl Cons.prems(1) show ?thesis by (simp add: p getitem_def X)
  next
    case (Inr M')
    with Cons.prems(1) have "combine_loop rest md M' = Inl e" by (simp add: p getitem_def X)
    then show ?thesis using rest by (rule Cons.IH)
  qed
qed

lemma combine_loop_broadcast:
  "is_matrix n n M \<Longrightarrow> all_present md rest \<Longrightarrow> \<not> shape_mismatch md rest n \<Longrightarrow>
   \<exists>R. combine_loop rest md M = Inr R \<and> is_matrix n n R"
proof (induction rest arbitrary: M)
  case Nil
  then show ?case by simp
next
  case (Cons p rest)
  obtain s w where p: "p = (s, w)" by (cases p)
  from Cons.prems(2) p obtain X where X: "map_of md s = Some X"
    and rest: "all_present md rest" by (auto simp: all_present_def)
  from Cons.prems(3) have ok: "broadcastable (np_shape X) (n, n)"
    and rest': "\<not> shape_mismatch md rest n"
    by (simp_all add: shape_mismatch_def p X)
  let ?M' = "map (\<lambda>i. map (\<lambda>j. M ! i ! j + broadcast_cell (np_scale X w) i j) [0..<n]) [0..<n]"
  have add: "np_iadd M (np_scale X w) = Inr ?M'"
    using Cons.prems(1) ok by (simp add: np_iadd_square np_shape_scale)
  have shape: "is_matrix n n ?M'" using add Cons.prems(1) by (rule np_iadd_shape)
  from Cons.IH [OF shape rest rest'] show ?case by (simp add: p getitem_def X add)
qed

text \<open>
  A shape other than \<open>n \<times> n\<close> is not always rejected: for \<open>n = 2\<close> the
  \<open>1 \<times> 1\<close> matrix \<^verbatim>\<open>[[5]]\<close> with the weight 1 is broadcast, and the result
  \<^verbatim>\<open>[[5,5],[5,5]]\<close> is returned without an error.
\<close>

theorem combine_matrices_broadcast_counterexample:
  "map_of [(''a'', [[5::real]])] ''a'' = Some [[5]] \<and> np_shape [[5]] = (1, 1) \<and>
   \<not> is_matrix 2 2 [[5]] \<and>
   combine_matrices [(''a'', [[5]])] [(''a'', 1)] 2 = Inr [[5, 5], [5, 5]]"
  by (simp add: combine_matrices_def np_zeros_def getitem_def np_iadd_def np_shape_def
      np_scale_def broadcastable_def broadcast_cell_def is_matrix_def upt_rec numeral_2_eq_2)

text \<open>
  C8 (amended).  \<^verbatim>\<open>combine_matrices\<close> fails whenever some setting with a weight has
  a matrix whose shape cannot be broadcast to \<open>n \<times> n\<close>, that is, whose number of rows
  is neither \<open>n\<close> nor 1 or whose number of columns is neither \<open>n\<close> nor 1.  When every
  setting with a weight has a matrix, the error is numpy's broadcast \<^verbatim>\<open>ValueError\<close>
  in that case, and otherwise an \<open>n \<times> n\<close> result is returned: matrices with one row
  or one column are repeated along that axis.
\<close>

theorem combine_matrices_shape_check:
  "(shape_mismatch matrix_dictionary weights_dictionary n \<longrightarrow>
      (\<exists>e. combine_matrices matrix_dictionary weights_dictionary (int n) = Inl e)) \<and>
   (all_present matrix_dictionary weights_dictionary \<longrightarrow>
      (if shape_mismatch matrix_dictionary weights_dictionary n
       then combine_matrices matrix_dictionary weights_dictionary (int n)
              = Inl ValueError_broadcast
       else (\<exists>M. combine_matrices matrix_dictionary weights_dictionary (int n) = Inr M \<and>
               is_matrix n n M)))"
proof (intro conjI impI)
  let ?run = "combine_loop weights_dictionary matrix_dictionary (np_zeros n n)"
  have run: "combine_matrices matrix_dictionary weights_dictionary (int n) = ?run"
    by (simp add: combine_matrices_def)
  have fails: "\<exists>e. ?run = Inl e" if "shape_mismatch matrix_dictionary weights_dictionary n"
    using is_matrix_zeros that by (rule combine_loop_mismatch)
  {
    assume "shape_mismatch matrix_dictionary weights_dictionary n"
    then show "\<exists>e. combine_matrices matrix_dictionary weights_dictionary (int n) = Inl e"
      unfolding run by (rule fails)
  }
  assume present: "all_present matrix_dictionary weights_dictionary"
  show "if shape_mismatch matrix_dictionary weights_dictionary n
       then combine_matrices matrix_dictionary weights_dictionary (int n)
              = Inl ValueError_broadcast
       else (\<exists>M. combine_matrices matrix_dictionary weights_dictionary (int n) = Inr M \<and>
               is_matrix n n M)"
  proof (cases "shape_mismatch matrix_dictionary weights_dictionary n")
    case True
    from fails [OF True] obtain e where e: "?run = Inl e" ..
    then have "e = ValueError_broadcast" using present by (rule combine_loop_error_kind)
    with e True show ?thesis by (simp add: run)
  next
    case False
    from combine_loop_broadcast [OF is_matrix_zeros present False]
    show ?thesis using False by (simp add: run)
  qed
qed

text \<open>
  For \<open>n = 2\<close>, a \<open>3 \<times> 3\<close> matrix is rejected and the \<open>1 \<times> 2\<close> matrix
  \<^verbatim>\<open>[[5, 7]]\<close> is repeated along the rows.
\<close>

theorem combine_matrices_shape_check_witness:
  "shape_mismatch [(''a'', [[5, 7, 8], [1, 2, 3], [1, 2, 3]])] [(''a'', 1)] 2 \<and>
   all_present [(''a'', [[5, 7, 8], [1, 2, 3], [1, 2, 3]])] [(''a'', 1)] \<and>
   combine_matrices [(''a'', [[5, 7, 8], [1, 2, 3], [1, 2, 3]])] [(''a'', 1)] (int 2)
     = Inl ValueError_broadcast \<and>
   all_present [(''a'', [[5, 7]])] [(''a'', 1)] \<and>
   \<not> shape_mismatch [(''a'', [[5, 7]])] [(''a'', 1)] 2 \<and>
   combine_matrices [(''a'', [[5, 7]])] [(''a'', 1)] (int 2) = Inr [[5, 7], [5, 7]]"
proof -
  let ?big = "[(''a'', [[5, 7, 8], [1, 2, 3], [1, 2, 3::real]])]"
  let ?row = "[(''a'', [[5, 7::real]])]"
  let ?wd = "[(''a'', 1::real)]"
  have m1: "shape_mismatch ?big ?wd 2"
    by (simp add: shape_mismatch_def broadcastable_def np_shape_def)
  have p1: "all_present ?big ?wd" by (simp add: all_present_def)
  have p2: "all_present ?row ?wd" by (simp add: all_present_def)
  have m2: "\<not> shape_mismatch ?row ?wd 2"
    by (simp add: shape_mismatch_def broadcastable_def np_shape_def)
  have ev: "combine_matrices ?row ?wd (int 2) = Inr [[5, 7], [5, 7]]"
    by (simp add: combine_matrices_def np_zeros_def getitem_def np_iadd_def np_shape_def
        np_scale_def broadcastable_def broadcast_cell_def upt_rec numeral_2_eq_2)
  show ?thesis
    using combine_matrices_shape_check [of ?big ?wd 2]
      combine_matrices_shape_check [of ?row ?wd 2] m1 p1 p2 m2 ev
    by simp
qed

end
